theory Spec2Isabelle
  imports Complex_Main
begin

section \<open>Data model\<close>

subsection \<open>Shape\<close>

text \<open>
  Modelled from the spec: the class \<^verbatim>\<open>Shape\<close> (\<^verbatim>\<open>primitiv/shape.h\<close>) is used by every
  kernel of \<^verbatim>\<open>cpu_device.cc\<close> but its declaration is not among the sources. The spec
  describes it as an ordered sequence of per-axis extents plus a batch size, with axis
  lookup returning 1 past the declared rank, \<^verbatim>\<open>elements_under_rank(d)\<close> the product of
  the extents of the axes \<open>0 \<dots> d - 1\<close>, elements-per-sample the product of all extents
  and total elements the elements-per-sample times the batch size.
\<close>

record Shape =
  dims :: "nat list"
  batch :: nat

definition shape_at :: "Shape \<Rightarrow> nat \<Rightarrow> nat" where
  \<comment> \<open>Modelled from the spec: \<^verbatim>\<open>operator[]\<close>, 1 for an axis past the declared rank.\<close>
  "shape_at s d = (if d < length (dims s) then dims s ! d else 1)"

definition batch_size :: "Shape \<Rightarrow> nat" where
  "batch_size s = batch s"

definition num_elements_under_rank :: "Shape \<Rightarrow> nat \<Rightarrow> nat" where
  \<comment> \<open>Modelled from the spec: the product of the extents of the axes below \<open>d\<close>.\<close>
  "num_elements_under_rank s d = prod_list (take d (dims s))"

definition num_elements_per_sample :: "Shape \<Rightarrow> nat" where
  "num_elements_per_sample s = prod_list (dims s)"

definition num_total_elements :: "Shape \<Rightarrow> nat" where
  "num_total_elements s = num_elements_per_sample s * batch s"

definition resize_dim :: "Shape \<Rightarrow> nat \<Rightarrow> nat \<Rightarrow> Shape" where
  \<comment> \<open>Modelled from the spec: axis \<open>d\<close> replaced by \<open>n\<close>; axes that were absent are 1.\<close>
  "resize_dim s d n =
     s\<lparr>dims := (dims s @ replicate (Suc d - length (dims s)) 1)[d := n]\<rparr>"

definition resize_batch :: "Shape \<Rightarrow> nat \<Rightarrow> Shape" where
  "resize_batch s n = s\<lparr>batch := n\<rparr>"

definition valid_shape :: "Shape \<Rightarrow> bool" where
  \<comment> \<open>Modelled from the spec: every extent and the batch size are at least 1.\<close>
  "valid_shape s = (list_all (\<lambda>n. 1 \<le> n) (dims s) \<and> 1 \<le> batch s)"

subsection \<open>Tensor, device and memory\<close>

text \<open>
  A \<^verbatim>\<open>void *\<close> is an address; address 0 is the null pointer. A \<^verbatim>\<open>Tensor\<close> pairs a shape
  with the address of its block (\<^verbatim>\<open>tensor.h\<close>; the back pointer \<^verbatim>\<open>device_\<close> is left out
  because a single device is modelled).

  The state of a \<^verbatim>\<open>CPUDevice\<close> is its registry \<^verbatim>\<open>blocks_\<close>, a \<^verbatim>\<open>std::map\<close> from the
  address of every block it handed out to the block's size in bytes, together with the
  memory those addresses point to: \<open>mem dev p i\<close> is the \<open>i\<close>-th \<^verbatim>\<open>float\<close> of the block at
  \<open>p\<close>. The element type is a parameter, so that a kernel that only moves data or applies
  an arithmetic operation is modelled for whatever \<^verbatim>\<open>float\<close> is. Sizes and indices are
  \<^verbatim>\<open>unsigned\<close> in the source and natural numbers here; the byte size of a block is the
  one place where the source's 32-bit truncation is written out.

  The generator \<^verbatim>\<open>rng_\<close> is not part of the state: a random kernel takes the values its
  distribution object returns as an argument.

  \<^verbatim>\<open>THROW_ERROR(message)\<close> throws the one exception type of the library; an \<open>Error\<close>
  carries the text of the message, without the number or address the source appends.
  A function that can throw returns the error or its result, together with the device.
\<close>

type_synonym addr = nat

record Tensor =
  t_shape :: Shape
  t_data :: addr

record 'a CPUDevice =
  blocks :: "addr \<rightharpoonup> nat"
  mem :: "addr \<Rightarrow> nat \<Rightarrow> 'a"

datatype error = Error string

datatype exit_status = Destroyed | Aborted "addr \<rightharpoonup> nat"

definition valid :: "Tensor \<Rightarrow> bool" where
  "valid x = (t_data x \<noteq> 0)"

section \<open>Storage lifecycle\<close>

definition CPUDevice_init :: "(addr \<Rightarrow> nat \<Rightarrow> 'a) \<Rightarrow> 'a CPUDevice" where
  \<comment> \<open>The constructors: \<^verbatim>\<open>blocks_()\<close>, over whatever the process memory holds.\<close>
  "CPUDevice_init m = \<lparr>blocks = Map.empty, mem = m\<rparr>"

definition CPUDevice_destroy :: "'a CPUDevice \<Rightarrow> exit_status" where
  \<comment> \<open>The destructor: a non-empty registry is reported on \<^verbatim>\<open>cerr\<close> and the process
      aborts. The report lists the leaked blocks.\<close>
  "CPUDevice_destroy dev =
     (if blocks dev \<noteq> Map.empty then Aborted (blocks dev) else Destroyed)"

definition mem_size :: "Shape \<Rightarrow> nat" where
  \<comment> \<open>\<^verbatim>\<open>const unsigned mem_size = sizeof(float) * shape.num_total_elements()\<close>\<close>
  "mem_size shape = (4 * num_total_elements shape) mod 2 ^ 32"

definition map_insert :: "('k \<rightharpoonup> 'v) \<Rightarrow> 'k \<Rightarrow> 'v \<Rightarrow> ('k \<rightharpoonup> 'v)" where
  \<comment> \<open>\<^verbatim>\<open>std::map::insert\<close>: an existing key keeps its value.\<close>
  "map_insert m k v = (case m k of None \<Rightarrow> m(k \<mapsto> v) | Some _ \<Rightarrow> m)"

definition new_handle :: "'a CPUDevice \<Rightarrow> addr \<Rightarrow> Shape \<Rightarrow> (error + addr) \<times> 'a CPUDevice" where
  \<comment> \<open>The argument \<open>data\<close> is what \<^verbatim>\<open>std::malloc(mem_size)\<close> returns, 0 when it fails.\<close>
  "new_handle dev data shape =
     (if data = 0 then (Inl (Error ''Memory allocation failed. Requested size: ''), dev)
      else (Inr data, dev\<lparr>blocks := map_insert (blocks dev) data (mem_size shape)\<rparr>))"

definition new_tensor :: "'a CPUDevice \<Rightarrow> addr \<Rightarrow> Shape \<Rightarrow> (error + Tensor) \<times> 'a CPUDevice" where
  \<comment> \<open>Modelled from the spec: \<^verbatim>\<open>Device::new_tensor\<close> is not among the sources; it
      "returns a Tensor with freshly allocated uninitialized storage", that is a tensor of
      the given shape over a new handle.\<close>
  "new_tensor dev data shape =
     (case new_handle dev data shape of
        (Inl e, dev') \<Rightarrow> (Inl e, dev')
      | (Inr h, dev') \<Rightarrow> (Inr \<lparr>t_shape = shape, t_data = h\<rparr>, dev'))"

definition delete_tensor_impl :: "'a CPUDevice \<Rightarrow> Tensor \<Rightarrow> (error + unit) \<times> 'a CPUDevice" where
  "delete_tensor_impl dev x =
     (let data = t_data x in
      case blocks dev data of
        None \<Rightarrow> (Inl (Error ''Attempted to dispose unknown memory block: ''), dev)
      | Some _ \<Rightarrow> (Inr (), dev\<lparr>blocks := (blocks dev)(data := None)\<rparr>))"

definition tensor_to_vector_impl :: "'a CPUDevice \<Rightarrow> Tensor \<Rightarrow> 'a list" where
  "tensor_to_vector_impl dev x =
     map (mem dev (t_data x)) [0..<num_total_elements (t_shape x)]"

definition broadcast_impl :: "'a CPUDevice \<Rightarrow> Tensor \<Rightarrow> nat \<Rightarrow> (error + Tensor) \<times> 'a CPUDevice" where
  "broadcast_impl dev x dim' = (Inl (Error ''not implemented''), dev)"

text \<open>
  A client's use of the device over time: it asks for tensors and disposes of them. An
  exception ends the run. \<open>outstanding\<close> is the bookkeeping the client could do by itself:
  the handles it was given and has not given back.
\<close>

datatype device_op = New Shape addr | Delete Tensor

fun run :: "'a CPUDevice \<Rightarrow> device_op list \<Rightarrow> error + 'a CPUDevice" where
  "run dev [] = Inr dev"
| "run dev (New shape data # ops) =
     (case new_tensor dev data shape of
        (Inl e, _) \<Rightarrow> Inl e
      | (Inr _, dev') \<Rightarrow> run dev' ops)"
| "run dev (Delete x # ops) =
     (case delete_tensor_impl dev x of
        (Inl e, _) \<Rightarrow> Inl e
      | (Inr _, dev') \<Rightarrow> run dev' ops)"

fun outstanding :: "addr set \<Rightarrow> device_op list \<Rightarrow> addr set" where
  "outstanding H [] = H"
| "outstanding H (New shape data # ops) = outstanding (insert data H) ops"
| "outstanding H (Delete x # ops) = outstanding (H - {t_data x}) ops"

definition allocations :: "device_op list \<Rightarrow> nat" where
  "allocations ops =
     length (filter (\<lambda>op. case op of New _ _ \<Rightarrow> True | Delete _ \<Rightarrow> False) ops)"

definition disposals :: "device_op list \<Rightarrow> nat" where
  "disposals ops =
     length (filter (\<lambda>op. case op of New _ _ \<Rightarrow> False | Delete _ \<Rightarrow> True) ops)"

text \<open>
  What \<^verbatim>\<open>std::malloc\<close> promises along a run: the address it returns is not that of a
  block that is still allocated.
\<close>

fun malloc_fresh :: "addr set \<Rightarrow> device_op list \<Rightarrow> bool" where
  "malloc_fresh H [] = True"
| "malloc_fresh H (New shape data # ops) = (data \<notin> H \<and> malloc_fresh (insert data H) ops)"
| "malloc_fresh H (Delete x # ops) = malloc_fresh (H - {t_data x}) ops"

section \<open>Properties of the storage lifecycle\<close>

lemma dom_map_insert: "dom (map_insert m k v) = insert k (dom m)"
  by (auto simp: map_insert_def split: option.splits)

lemma map_insert_fresh: "m k = None \<Longrightarrow> map_insert m k v = m(k \<mapsto> v)"
  by (simp add: map_insert_def)

lemma new_tensor_Inr:
  "new_tensor dev data shape = (Inr t, dev') \<longleftrightarrow>
     data \<noteq> 0 \<and> t = \<lparr>t_shape = shape, t_data = data\<rparr> \<and>
     dev' = dev\<lparr>blocks := map_insert (blocks dev) data (mem_size shape)\<rparr>"
  by (auto simp: new_tensor_def new_handle_def)

lemma new_tensor_Inl:
  "new_tensor dev data shape = (Inl e, dev') \<Longrightarrow> data = 0 \<and> dev' = dev"
  by (auto simp: new_tensor_def new_handle_def split: if_splits)

lemma run_dom:
  "run dev ops = Inr dev' \<Longrightarrow> dom (blocks dev') = outstanding (dom (blocks dev)) ops"
proof (induction dev ops rule: run.induct)
  case (1 dev)
  then show ?case by simp
next
  case (2 dev shape data ops)
  then show ?case
    by (auto simp: new_tensor_def new_handle_def dom_map_insert split: if_splits)
next
  case (3 dev x ops)
  then show ?case
    by (auto simp: delete_tensor_impl_def Let_def split: option.splits)
qed


lemma run_init_dom:
  "run (CPUDevice_init m) ops = Inr dev \<Longrightarrow> dom (blocks dev) = outstanding {} ops"
  using run_dom [of "CPUDevice_init m" ops dev] by (simp add: CPUDevice_init_def)

lemma run_card:
  "run dev ops = Inr dev' \<Longrightarrow> finite (dom (blocks dev)) \<Longrightarrow>
   malloc_fresh (dom (blocks dev)) ops \<Longrightarrow>
   card (dom (blocks dev')) + disposals ops = card (dom (blocks dev)) + allocations ops"
proof (induction dev ops rule: run.induct)
  case (1 dev)
  then show ?case by (simp add: allocations_def disposals_def)
next
  case (2 dev shape data ops)
  from "2.prems"(1) obtain t dev1 where
    n: "new_tensor dev data shape = (Inr t, dev1)" and r: "run dev1 ops = Inr dev'"
    by (auto split: prod.splits sum.splits)
  from n have d: "dom (blocks dev1) = insert data (dom (blocks dev))"
    by (auto simp: new_tensor_Inr dom_map_insert)
  from "2.prems" have f: "data \<notin> dom (blocks dev)" by simp
  have "card (dom (blocks dev')) + disposals ops = card (dom (blocks dev1)) + allocations ops"
    using "2.IH" [OF n [symmetric] refl r] "2.prems" d by simp
  with d f "2.prems"(2) show ?case
    by (simp add: allocations_def disposals_def)
next
  case (3 dev x ops)
  from "3.prems"(1) obtain u dev1 where
    n: "delete_tensor_impl dev x = (Inr u, dev1)" and r: "run dev1 ops = Inr dev'"
    by (auto split: prod.splits sum.splits)
  from n have d: "dom (blocks dev1) = dom (blocks dev) - {t_data x}"
    and k: "t_data x \<in> dom (blocks dev)"
    by (auto simp: delete_tensor_impl_def Let_def split: option.splits if_splits)
  have "card (dom (blocks dev')) + disposals ops = card (dom (blocks dev1)) + allocations ops"
    using "3.IH" [OF n [symmetric] refl r] "3.prems" d by simp
  moreover have "card (dom (blocks dev)) = Suc (card (dom (blocks dev1)))"
    using d k "3.prems"(2) card_Suc_Diff1 [of "dom (blocks dev)" "t_data x"] by simp
  ultimately show ?case
    by (simp add: allocations_def disposals_def)
qed

lemma run_init_card:
  "run (CPUDevice_init m) ops = Inr dev \<Longrightarrow> malloc_fresh {} ops \<Longrightarrow>
   card (dom (blocks dev)) + disposals ops = allocations ops"
  using run_card [of "CPUDevice_init m" ops dev] by (simp add: CPUDevice_init_def)

text \<open>
  Claim C7. The registry holds exactly the outstanding handles. A successful
  \<open>new_handle\<close> returns the address \<^verbatim>\<open>malloc\<close> gave and adds one entry for it (the address
  of a block that is not allocated is not a key yet); a successful \<open>delete_tensor_impl\<close>
  removes the entry of the tensor's address and no other; hence after any run of a new
  device in which every request succeeded, the keys of the registry are the handles
  given out and not given back, as many as there were allocations less disposals, and
  when there is none the registry is empty and the destructor returns. The destructor of
  a device with a non-empty registry aborts, reporting the registry.
\<close>

theorem registry_tracks_outstanding_handles:
  "(data \<notin> dom (blocks dev) \<longrightarrow> new_handle dev data shape = (Inr h, dev1) \<longrightarrow>
      h = data \<and> blocks dev1 = (blocks dev)(h \<mapsto> mem_size shape) \<and> mem dev1 = mem dev)
   \<and> (delete_tensor_impl dev x = (Inr u, dev2) \<longrightarrow>
      t_data x \<in> dom (blocks dev) \<and> blocks dev2 = (blocks dev)(t_data x := None) \<and>
      mem dev2 = mem dev)
   \<and> (run (CPUDevice_init m) ops = Inr dev3 \<longrightarrow> malloc_fresh {} ops \<longrightarrow>
      dom (blocks dev3) = outstanding {} ops \<and>
      card (dom (blocks dev3)) + disposals ops = allocations ops \<and>
      (outstanding {} ops = {} \<longrightarrow>
         blocks dev3 = Map.empty \<and> CPUDevice_destroy dev3 = Destroyed))
   \<and> (blocks dev \<noteq> Map.empty \<longrightarrow> CPUDevice_destroy dev = Aborted (blocks dev))"
proof (intro conjI impI)
  assume "data \<notin> dom (blocks dev)" and "new_handle dev data shape = (Inr h, dev1)"
  then show "h = data"
    and "blocks dev1 = (blocks dev)(h \<mapsto> mem_size shape)"
    and "mem dev1 = mem dev"
    by (auto simp: new_handle_def map_insert_fresh domIff split: if_splits)
next
  assume "delete_tensor_impl dev x = (Inr u, dev2)"
  then show "t_data x \<in> dom (blocks dev)"
    and "blocks dev2 = (blocks dev)(t_data x := None)"
    and "mem dev2 = mem dev"
    by (auto simp: delete_tensor_impl_def Let_def split: option.splits)
next
  assume r: "run (CPUDevice_init m) ops = Inr dev3" and f: "malloc_fresh {} ops"
  from r show d: "dom (blocks dev3) = outstanding {} ops"
    by (rule run_init_dom)
  from r f show "card (dom (blocks dev3)) + disposals ops = allocations ops"
    by (rule run_init_card)
  assume "outstanding {} ops = {}"
  with d have e: "blocks dev3 = Map.empty" by simp
  then show "blocks dev3 = Map.empty" .
  from e show "CPUDevice_destroy dev3 = Destroyed"
    by (simp add: CPUDevice_destroy_def)
next
  assume "blocks dev \<noteq> Map.empty"
  then show "CPUDevice_destroy dev = Aborted (blocks dev)"
    by (simp add: CPUDevice_destroy_def)
qed

theorem registry_tracks_outstanding_handles_witness:
  "(let S = \<lparr>dims = [2, 2], batch = 1\<rparr>;
        D = \<lparr>blocks = [8 \<mapsto> 4], mem = (\<lambda>p i. 0::real)\<rparr>;
        OPS = [New S 16, New S 32, Delete \<lparr>t_shape = S, t_data = 16\<rparr>,
               Delete \<lparr>t_shape = S, t_data = 32\<rparr>]
    in (16::nat) \<notin> dom (blocks D)
       \<and> new_handle D 16 S = (Inr 16, D\<lparr>blocks := [8 \<mapsto> 4, 16 \<mapsto> 16]\<rparr>)
       \<and> delete_tensor_impl D \<lparr>t_shape = S, t_data = 8\<rparr> = (Inr (), D\<lparr>blocks := Map.empty\<rparr>)
       \<and> run (CPUDevice_init (mem D)) OPS = Inr (CPUDevice_init (mem D))
       \<and> malloc_fresh {} OPS \<and> outstanding {} OPS = {}
       \<and> allocations OPS = 2 \<and> disposals OPS = 2
       \<and> CPUDevice_destroy (CPUDevice_init (mem D)) = Destroyed
       \<and> blocks D \<noteq> Map.empty
       \<and> CPUDevice_destroy D = Aborted (blocks D))"
  using registry_tracks_outstanding_handles
    [of 16 "\<lparr>blocks = [8 \<mapsto> 4], mem = (\<lambda>p i. 0::real)\<rparr>" "\<lparr>dims = [2, 2], batch = 1\<rparr>" 16
        "\<lparr>blocks = [8 \<mapsto> 4, 16 \<mapsto> 16], mem = (\<lambda>p i. 0::real)\<rparr>"
        "\<lparr>t_shape = \<lparr>dims = [2, 2], batch = 1\<rparr>, t_data = 8\<rparr>" "()"
        "\<lparr>blocks = Map.empty, mem = (\<lambda>p i. 0::real)\<rparr>"
        "\<lambda>p i. 0::real"
        "[New \<lparr>dims = [2, 2], batch = 1\<rparr> 16, New \<lparr>dims = [2, 2], batch = 1\<rparr> 32,
          Delete \<lparr>t_shape = \<lparr>dims = [2, 2], batch = 1\<rparr>, t_data = 16\<rparr>,
          Delete \<lparr>t_shape = \<lparr>dims = [2, 2], batch = 1\<rparr>, t_data = 32\<rparr>]"
        "CPUDevice_init (\<lambda>p i. 0::real)"]
  by (simp add: Let_def new_handle_def new_tensor_def delete_tensor_impl_def map_insert_def
      CPUDevice_init_def CPUDevice_destroy_def mem_size_def num_total_elements_def
      num_elements_per_sample_def allocations_def disposals_def fun_upd_twist)

text \<open>
  Claim C8. \<open>delete_tensor_impl\<close> raises exactly when the address of the tensor is not a
  key of the registry, and then it leaves the device, registry and memory, as it was.
\<close>

theorem delete_tensor_raises_iff_unknown:
  "((\<exists>e. fst (delete_tensor_impl dev x) = Inl e) \<longleftrightarrow> t_data x \<notin> dom (blocks dev))
   \<and> (t_data x \<notin> dom (blocks dev) \<longrightarrow> snd (delete_tensor_impl dev x) = dev)"
  by (auto simp: delete_tensor_impl_def Let_def split: option.splits)

theorem delete_tensor_raises_iff_unknown_witness:
  "(let D = \<lparr>blocks = [8 \<mapsto> 4], mem = (\<lambda>p i. 0::real)\<rparr>;
        X = \<lparr>t_shape = \<lparr>dims = [1], batch = 1\<rparr>, t_data = 24\<rparr>
    in t_data X \<notin> dom (blocks D)
       \<and> (\<exists>e. fst (delete_tensor_impl D X) = Inl e)
       \<and> snd (delete_tensor_impl D X) = D)"
  using delete_tensor_raises_iff_unknown
    [of "\<lparr>blocks = [8 \<mapsto> 4], mem = (\<lambda>p i. 0::real)\<rparr>"
        "\<lparr>t_shape = \<lparr>dims = [1], batch = 1\<rparr>, t_data = 24\<rparr>"]
  by (simp add: Let_def)

text \<open>
  Claim C9. Whatever the tensor and the axis, \<open>broadcast_impl\<close> raises the error
  "not implemented", returns no tensor, and leaves the device (its registry and the
  memory) as it was: nothing is allocated.
\<close>

theorem broadcast_not_implemented:
  "fst (broadcast_impl dev x axis) = Inl (Error ''not implemented'')
   \<and> snd (broadcast_impl dev x axis) = dev
   \<and> blocks (snd (broadcast_impl dev x axis)) = blocks dev"
  by (simp add: broadcast_impl_def)

section \<open>Element values\<close>

text \<open>
  The values of a \<^verbatim>\<open>float\<close> as far as its comparisons go: a number, one of the two
  infinities, or NaN. The two zeros compare equal and are the one value \<open>Fin 0\<close>. NaN is
  unordered: \<^verbatim>\<open><\<close>, \<^verbatim>\<open><=\<close> and \<^verbatim>\<open>==\<close> are false whenever an operand is NaN. The finite
  values are over-approximated by all real numbers, and rounding is not modelled: the
  type has an order, a zero and a one, and no arithmetic. The kernels that compare
  elements are stated over this type.
\<close>

datatype float = NaN | NInf | Fin real | PInf

instantiation float :: "{zero, one, ord}"
begin

definition zero_float :: float where
  "zero_float = Fin 0"

definition one_float :: float where
  "one_float = Fin 1"

definition less_float :: "float \<Rightarrow> float \<Rightarrow> bool" where
  "less_float a b =
     (case (a, b) of
        (NInf, Fin y) \<Rightarrow> True
      | (NInf, PInf) \<Rightarrow> True
      | (Fin x, Fin y) \<Rightarrow> x < y
      | (Fin x, PInf) \<Rightarrow> True
      | _ \<Rightarrow> False)"

definition less_eq_float :: "float \<Rightarrow> float \<Rightarrow> bool" where
  "less_eq_float a b =
     (case (a, b) of
        (NInf, NInf) \<Rightarrow> True
      | (NInf, Fin y) \<Rightarrow> True
      | (NInf, PInf) \<Rightarrow> True
      | (Fin x, Fin y) \<Rightarrow> x \<le> y
      | (Fin x, PInf) \<Rightarrow> True
      | (PInf, PInf) \<Rightarrow> True
      | _ \<Rightarrow> False)"

instance ..

end

definition float_eq :: "float \<Rightarrow> float \<Rightarrow> bool" where
  "float_eq a b = (a \<noteq> NaN \<and> b \<noteq> NaN \<and> a = b)"

section \<open>Kernels that fill a new tensor element by element\<close>

text \<open>
  Every value-producing kernel starts with \<^verbatim>\<open>Tensor ret = new_tensor(shape)\<close>, whose
  exception ends the kernel, and then writes the block of \<open>ret\<close> through the pointer
  \<^verbatim>\<open>dest\<close>. Here a kernel computes the final contents of that block from its contents
  after the allocation (uninitialised, so whatever the memory holds) and stores it back.
  The macro \<^verbatim>\<open>REPEAT_OP(i, n, op)\<close> is the loop \<^verbatim>\<open>for (i = 0; i < n; ++i) { op; }\<close>.
  The conversion of a \<^verbatim>\<open>bool\<close> to \<^verbatim>\<open>float\<close> gives 1 for true and 0 for false.
\<close>

definition std_max :: "'a::ord \<Rightarrow> 'a \<Rightarrow> 'a" where
  "std_max a b = (if a < b then b else a)"

definition REPEAT_OP :: "nat \<Rightarrow> (nat \<Rightarrow> 's \<Rightarrow> 's) \<Rightarrow> 's \<Rightarrow> 's" where
  "REPEAT_OP n op s = fold op [0..<n] s"

definition store :: "'a CPUDevice \<Rightarrow> addr \<Rightarrow> (nat \<Rightarrow> 'a) \<Rightarrow> 'a CPUDevice" where
  "store dev p buf = dev\<lparr>mem := (mem dev)(p := buf)\<rparr>"

definition step_impl :: "'a::{zero,one,ord} CPUDevice \<Rightarrow> addr \<Rightarrow> Tensor \<Rightarrow> (error + Tensor) \<times> 'a CPUDevice" where
  "step_impl dev data x =
     (case new_tensor dev data (t_shape x) of
        (Inl e, dev') \<Rightarrow> (Inl e, dev')
      | (Inr ret, dev') \<Rightarrow>
          (let dest = mem dev' (t_data ret);
               src = mem dev' (t_data x);
               size = num_total_elements (t_shape x);
               dest = REPEAT_OP size (\<lambda>i dest. dest(i := (if src i > 0 then 1 else 0))) dest
           in (Inr ret, store dev' (t_data ret) dest)))"

definition relu_impl :: "'a::{zero,ord} CPUDevice \<Rightarrow> addr \<Rightarrow> Tensor \<Rightarrow> (error + Tensor) \<times> 'a CPUDevice" where
  "relu_impl dev data x =
     (case new_tensor dev data (t_shape x) of
        (Inl e, dev') \<Rightarrow> (Inl e, dev')
      | (Inr ret, dev') \<Rightarrow>
          (let dest = mem dev' (t_data ret);
               src = mem dev' (t_data x);
               size = num_total_elements (t_shape x);
               dest = REPEAT_OP size (\<lambda>i dest. dest(i := std_max (src i) 0)) dest
           in (Inr ret, store dev' (t_data ret) dest)))"

lemma REPEAT_OP_Suc: "REPEAT_OP (Suc n) op s = op n (REPEAT_OP n op s)"
  by (simp add: REPEAT_OP_def)

lemma REPEAT_OP_0: "REPEAT_OP 0 op s = s"
  by (simp add: REPEAT_OP_def)

lemma REPEAT_OP_assign:
  "REPEAT_OP n (\<lambda>i dest. dest(i := f i)) dest = (\<lambda>k. if k < n then f k else dest k)"
  by (induction n) (auto simp: REPEAT_OP_Suc REPEAT_OP_0 fun_eq_iff)

lemma new_tensor_ok:
  "data \<noteq> 0 \<Longrightarrow> new_tensor dev data shape =
     (Inr \<lparr>t_shape = shape, t_data = data\<rparr>,
      dev\<lparr>blocks := map_insert (blocks dev) data (mem_size shape)\<rparr>)"
  by (simp add: new_tensor_def new_handle_def)

lemma to_vector_store:
  "tensor_to_vector_impl (store dev (t_data x) buf) x = map buf [0..<num_total_elements (t_shape x)]"
  by (simp add: tensor_to_vector_impl_def store_def)

lemma float_less_cases [simp]:
  "\<not> NaN < b" "\<not> a < NaN" "\<not> PInf < b" "\<not> a < NInf"
  "NInf < Fin y" "NInf < PInf" "Fin x < PInf" "Fin x < Fin y \<longleftrightarrow> x < y"
  by (simp_all add: less_float_def split: float.splits)

lemma float_less_eq_cases [simp]:
  "\<not> NaN \<le> b" "\<not> a \<le> NaN" "NInf \<le> b \<longleftrightarrow> b \<noteq> NaN" "a \<le> PInf \<longleftrightarrow> a \<noteq> NaN"
  "\<not> PInf \<le> Fin y" "\<not> PInf \<le> NInf" "\<not> Fin x \<le> NInf" "Fin x \<le> Fin y \<longleftrightarrow> x \<le> y"
  by (simp_all add: less_eq_float_def split: float.splits)

lemma float_zero_one [simp]: "(0::float) \<noteq> 1" "(0::float) \<noteq> NaN" "(1::float) \<noteq> NaN"
  by (simp_all add: zero_float_def one_float_def)

lemma relu_value:
  fixes v :: float
  shows "(v \<noteq> NaN \<longrightarrow> 0 \<le> std_max v 0) \<and> (v = NaN \<longrightarrow> std_max v 0 = NaN)
     \<and> (float_eq (std_max v 0) 0 \<longleftrightarrow> v \<le> 0)"
  by (cases v) (auto simp: std_max_def zero_float_def float_eq_def)

lemma step_value:
  fixes v :: float
  shows "((if 0 < v then 1 else 0) = (0::float) \<or> (if 0 < v then 1 else 0) = (1::float))
     \<and> (float_eq (if 0 < v then 1 else 0) 1 \<longleftrightarrow> 0 < v)"
  by (cases v) (auto simp: zero_float_def one_float_def float_eq_def)


lemma relu_impl_ok:
  "data \<noteq> 0 \<Longrightarrow> relu_impl dev data x =
     (Inr \<lparr>t_shape = t_shape x, t_data = data\<rparr>,
      store (dev\<lparr>blocks := map_insert (blocks dev) data (mem_size (t_shape x))\<rparr>) data
        (\<lambda>k. if k < num_total_elements (t_shape x) then std_max (mem dev (t_data x) k) 0
             else mem dev data k))"
  by (simp add: relu_impl_def new_tensor_ok Let_def REPEAT_OP_assign cong: if_cong)

lemma step_impl_ok:
  "data \<noteq> 0 \<Longrightarrow> step_impl dev data x =
     (Inr \<lparr>t_shape = t_shape x, t_data = data\<rparr>,
      store (dev\<lparr>blocks := map_insert (blocks dev) data (mem_size (t_shape x))\<rparr>) data
        (\<lambda>k. if k < num_total_elements (t_shape x) then (if 0 < mem dev (t_data x) k then 1 else 0)
             else mem dev data k))"
  by (simp add: step_impl_def new_tensor_ok Let_def REPEAT_OP_assign cong: if_cong)

lemma mem_store: "mem (store dev p buf) q = (if q = p then buf else mem dev q)"
  by (simp add: store_def)

lemma blocks_store: "blocks (store dev p buf) = blocks dev"
  by (simp add: store_def)

lemma to_vector_nth:
  "i < num_total_elements (t_shape x) \<Longrightarrow> tensor_to_vector_impl dev x ! i = mem dev (t_data x) i"
  by (simp add: tensor_to_vector_impl_def)

lemma upt_2: "[0..<2] = [0, Suc 0]" by (simp add: upt_rec)


text \<open>
  Claim C6, as stated, fails for an element that is NaN: \<^verbatim>\<open>std::max(a, b)\<close> is
  \<^verbatim>\<open>(a < b) ? b : a\<close>, so \<open>relu_impl\<close> passes a NaN through, and NaN is not \<open>\<ge> 0\<close>.
\<close>

theorem relu_nonnegative_counterexample:
  "fst (relu_impl \<lparr>blocks = [8 \<mapsto> 4], mem = (\<lambda>p i. NaN)\<rparr> 16
          \<lparr>t_shape = \<lparr>dims = [1], batch = 1\<rparr>, t_data = 8\<rparr>)
     = Inr \<lparr>t_shape = \<lparr>dims = [1], batch = 1\<rparr>, t_data = 16\<rparr>
   \<and> tensor_to_vector_impl \<lparr>blocks = [8 \<mapsto> 4], mem = (\<lambda>p i. NaN)\<rparr>
          \<lparr>t_shape = \<lparr>dims = [1], batch = 1\<rparr>, t_data = 8\<rparr> = [NaN]
   \<and> tensor_to_vector_impl
        (snd (relu_impl \<lparr>blocks = [8 \<mapsto> 4], mem = (\<lambda>p i. NaN)\<rparr> 16
          \<lparr>t_shape = \<lparr>dims = [1], batch = 1\<rparr>, t_data = 8\<rparr>))
        \<lparr>t_shape = \<lparr>dims = [1], batch = 1\<rparr>, t_data = 16\<rparr> = [NaN]
   \<and> \<not> 0 \<le> tensor_to_vector_impl
        (snd (relu_impl \<lparr>blocks = [8 \<mapsto> 4], mem = (\<lambda>p i. NaN)\<rparr> 16
          \<lparr>t_shape = \<lparr>dims = [1], batch = 1\<rparr>, t_data = 8\<rparr>))
        \<lparr>t_shape = \<lparr>dims = [1], batch = 1\<rparr>, t_data = 16\<rparr> ! 0"
  by (simp add: relu_impl_ok tensor_to_vector_impl_def mem_store num_total_elements_def
      num_elements_per_sample_def std_max_def)

text \<open>
  Claim C6, amended. For every tensor \<open>x\<close> and index \<open>i\<close>: the \<open>i\<close>-th element of
  \<open>relu_impl x\<close> is \<open>\<ge> 0\<close> unless \<open>x[i]\<close> is NaN, and then it is NaN; it compares equal
  to 0 exactly when \<open>x[i] \<le> 0\<close>; the \<open>i\<close>-th element of \<open>step_impl x\<close> is 0 or 1, and it
  is 1 exactly when \<open>x[i] > 0\<close>.
\<close>

theorem relu_step_elementwise:
  assumes "data \<noteq> 0" and "data' \<noteq> 0" and "i < num_total_elements (t_shape x)"
  shows "\<exists>r dev1 s dev2.
     relu_impl dev data x = (Inr r, dev1) \<and> step_impl dev data' x = (Inr s, dev2)
     \<and> (tensor_to_vector_impl dev x ! i \<noteq> NaN \<longrightarrow> 0 \<le> tensor_to_vector_impl dev1 r ! i)
     \<and> (tensor_to_vector_impl dev x ! i = NaN \<longrightarrow> tensor_to_vector_impl dev1 r ! i = NaN)
     \<and> (float_eq (tensor_to_vector_impl dev1 r ! i) 0 \<longleftrightarrow> tensor_to_vector_impl dev x ! i \<le> 0)
     \<and> (tensor_to_vector_impl dev2 s ! i = 0 \<or> tensor_to_vector_impl dev2 s ! i = 1)
     \<and> (float_eq (tensor_to_vector_impl dev2 s ! i) 1 \<longleftrightarrow> 0 < tensor_to_vector_impl dev x ! i)"
  using assms relu_value [of "mem dev (t_data x) i"] step_value [of "mem dev (t_data x) i"]
  by (simp add: relu_impl_ok step_impl_ok to_vector_nth mem_store)


theorem relu_step_elementwise_witness:
  "(let D = \<lparr>blocks = [8 \<mapsto> 8], mem = (\<lambda>p i. if i = 0 then Fin (-3) else Fin 2)\<rparr>;
        S = \<lparr>dims = [2], batch = 1\<rparr>;
        X = \<lparr>t_shape = S, t_data = 8\<rparr>
    in (16::nat) \<noteq> 0 \<and> (24::nat) \<noteq> 0 \<and> 1 < num_total_elements (t_shape X)
       \<and> tensor_to_vector_impl D X = [Fin (-3), Fin 2]
       \<and> tensor_to_vector_impl (snd (relu_impl D 16 X)) \<lparr>t_shape = S, t_data = 16\<rparr> = [0, Fin 2]
       \<and> tensor_to_vector_impl (snd (step_impl D 24 X)) \<lparr>t_shape = S, t_data = 24\<rparr> = [0, 1]
       \<and> (\<exists>r dev1 s dev2.
            relu_impl D 16 X = (Inr r, dev1) \<and> step_impl D 24 X = (Inr s, dev2)
            \<and> 0 \<le> tensor_to_vector_impl dev1 r ! 1
            \<and> \<not> float_eq (tensor_to_vector_impl dev1 r ! 1) 0
            \<and> float_eq (tensor_to_vector_impl dev2 s ! 1) 1))"
  using relu_step_elementwise
    [of 16 24 1 "\<lparr>t_shape = \<lparr>dims = [2], batch = 1\<rparr>, t_data = 8\<rparr>"
        "\<lparr>blocks = [8 \<mapsto> 8], mem = (\<lambda>p i. if i = 0 then Fin (-3) else Fin 2)\<rparr>"]
  by (simp add: Let_def relu_impl_ok step_impl_ok std_max_def zero_float_def one_float_def float_eq_def
      tensor_to_vector_impl_def mem_store num_total_elements_def num_elements_per_sample_def upt_2)


section \<open>Random kernels\<close>















section \<open>Matrix product\<close>

text \<open>
  \<open>dot_impl\<close> with its four loops. The pointers \<^verbatim>\<open>dest\<close>, \<^verbatim>\<open>src_a\<close> and \<^verbatim>\<open>src_b\<close> advance
  once per batch entry; they are the offsets \<open>pd\<close>, \<open>pa\<close> and \<open>pb\<close> into the three blocks.
  The third loop runs \<^verbatim>\<open>ky\<close> over \<open>0, d1, 2 d1, \<dots>\<close> below \<open>d1 * d3\<close> and \<^verbatim>\<open>kb\<close> over
  \<open>0, d2, 2 d2, \<dots>\<close>; it is entered only for an \<open>i < d1\<close>, so \<open>d1\<close> is positive there and
  the loop makes \<open>d3\<close> rounds, the \<open>k\<close>-th with \<open>ky = k * d1\<close> and \<open>kb = k * d2\<close>. Likewise
  \<^verbatim>\<open>ja\<close> is \<open>jb * d1\<close> in the innermost loop. The operands are read from the memory as it
  is before the kernel writes, which is what the source does when the new block is not
  an operand's.
\<close>

definition Shape_ctor :: "nat list \<Rightarrow> nat \<Rightarrow> Shape" where
  \<comment> \<open>Modelled from the spec: the constructor \<^verbatim>\<open>Shape({d1, ...}, k)\<close>, the extents and the
      batch size as given.\<close>
  "Shape_ctor ds k = \<lparr>dims = ds, batch = k\<rparr>"

definition dot_impl ::
  "'a::{zero,plus,times} CPUDevice \<Rightarrow> addr \<Rightarrow> Tensor \<Rightarrow> Tensor \<Rightarrow> (error + Tensor) \<times> 'a CPUDevice" where
  "dot_impl dev data a b =
     (let sa = t_shape a;
          sb = t_shape b;
          d1 = shape_at sa 0;
          d2 = shape_at sa 1;
          d3 = shape_at sb 1;
          bs = max (batch_size sa) (batch_size sb);
          dest_shift = d1 * d3;
          src_a_shift = (if batch_size sa > 1 then 1 else 0) * d1 * d2;
          src_b_shift = (if batch_size sb > 1 then 1 else 0) * d2 * d3
      in case new_tensor dev data (Shape_ctor [d1, d3] bs) of
           (Inl e, dev') \<Rightarrow> (Inl e, dev')
         | (Inr ret, dev') \<Rightarrow>
             (let src_a = mem dev' (t_data a);
                  src_b = mem dev' (t_data b);
                  (dest, pd, pa, pb) =
                    REPEAT_OP bs (\<lambda>b (dest, pd, pa, pb).
                      (REPEAT_OP d1 (\<lambda>i.
                         REPEAT_OP d3 (\<lambda>k dest.
                           let ky = k * d1; kb = k * d2;
                               tmp = REPEAT_OP d2 (\<lambda>jb tmp.
                                       let ja = jb * d1 in
                                       tmp + src_a (pa + (i + ja)) * src_b (pb + (jb + kb))) 0
                           in dest(pd + (i + ky) := tmp))) dest,
                       pd + dest_shift, pa + src_a_shift, pb + src_b_shift))
                      (mem dev' (t_data ret), 0, 0, 0)
              in (Inr ret, store dev' (t_data ret) dest)))"

lemma upt_4: "[0..<4] = [0, Suc 0, 2, 3]"
  by (simp add: upt_rec)

lemma to_vector_4:
  "num_total_elements (t_shape x) = 4 \<Longrightarrow> tensor_to_vector_impl dev x = [a, b, c, d] \<longleftrightarrow>
     mem dev (t_data x) 0 = a \<and> mem dev (t_data x) (Suc 0) = b \<and> mem dev (t_data x) 2 = c \<and> mem dev (t_data x) 3 = d"
  by (simp add: tensor_to_vector_impl_def upt_4)

text \<open>
  Claim C1. For \<open>a\<close> and \<open>b\<close> of shape \<open>{2,2}\<close> and batch 1 holding \<open>[1,2,3,4]\<close> and
  \<open>[5,6,7,8]\<close>, \<open>dot_impl\<close> returns a tensor of shape \<open>{2,2}\<close> holding \<open>[23,34,31,46]\<close>.
  The elements are real numbers here: every operand, product and partial sum of this
  computation is an integer below \<open>2^24\<close>, on which the arithmetic of \<^verbatim>\<open>float\<close> is exact.
\<close>

theorem dot_2x2_example:
  fixes dev :: "real CPUDevice"
  assumes "t_shape a = \<lparr>dims = [2, 2], batch = 1\<rparr>"
    and "t_shape b = \<lparr>dims = [2, 2], batch = 1\<rparr>"
    and "tensor_to_vector_impl dev a = [1, 2, 3, 4]"
    and "tensor_to_vector_impl dev b = [5, 6, 7, 8]"
    and "data \<noteq> 0" and "data \<noteq> t_data a" and "data \<noteq> t_data b"
  shows "\<exists>ret dev'. dot_impl dev data a b = (Inr ret, dev')
     \<and> t_shape ret = \<lparr>dims = [2, 2], batch = 1\<rparr>
     \<and> tensor_to_vector_impl dev' ret = [23, 34, 31, 46]"
proof -
  have n: "num_total_elements (t_shape a) = 4" "num_total_elements (t_shape b) = 4"
    using assms(1,2) by (simp_all add: num_total_elements_def num_elements_per_sample_def)
  from assms(3) n(1) have va: "mem dev (t_data a) 0 = 1" "mem dev (t_data a) (Suc 0) = 2"
      "mem dev (t_data a) 2 = 3" "mem dev (t_data a) 3 = 4"
    by (simp_all add: to_vector_4)
  from assms(4) n(2) have vb: "mem dev (t_data b) 0 = 5" "mem dev (t_data b) (Suc 0) = 6"
      "mem dev (t_data b) 2 = 7" "mem dev (t_data b) 3 = 8"
    by (simp_all add: to_vector_4)
  show ?thesis
    using assms(1,2,5) va vb
    by (simp add: dot_impl_def Let_def shape_at_def batch_size_def Shape_ctor_def new_tensor_ok
        REPEAT_OP_Suc REPEAT_OP_0 tensor_to_vector_impl_def mem_store num_total_elements_def
        num_elements_per_sample_def upt_4 numeral_2_eq_2 numeral_3_eq_3)
qed


theorem dot_2x2_example_witness:
  "(let D = \<lparr>blocks = [8 \<mapsto> 16, 16 \<mapsto> 16],
               mem = (\<lambda>p i. if p = 8 then real (i + 1) else if p = 16 then real (i + 5) else 0)\<rparr>;
        A = \<lparr>t_shape = \<lparr>dims = [2, 2], batch = 1\<rparr>, t_data = 8\<rparr>;
        B = \<lparr>t_shape = \<lparr>dims = [2, 2], batch = 1\<rparr>, t_data = 16\<rparr>
    in tensor_to_vector_impl D A = [1, 2, 3, 4]
       \<and> tensor_to_vector_impl D B = [5, 6, 7, 8]
       \<and> (24::nat) \<noteq> 0 \<and> 24 \<noteq> t_data A \<and> 24 \<noteq> t_data B
       \<and> (\<exists>ret dev'. dot_impl D 24 A B = (Inr ret, dev')
            \<and> t_shape ret = \<lparr>dims = [2, 2], batch = 1\<rparr>
            \<and> tensor_to_vector_impl dev' ret = [23, 34, 31, 46]))"
proof -
  define D :: "real CPUDevice" where "D = \<lparr>blocks = [8 \<mapsto> 16, 16 \<mapsto> 16],
      mem = (\<lambda>p i. if p = 8 then real (i + 1) else if p = 16 then real (i + 5) else 0)\<rparr>"
  define A where "A = \<lparr>t_shape = \<lparr>dims = [2, 2], batch = 1\<rparr>, t_data = 8\<rparr>"
  define B where "B = \<lparr>t_shape = \<lparr>dims = [2, 2], batch = 1\<rparr>, t_data = 16\<rparr>"
  have a: "tensor_to_vector_impl D A = [1, 2, 3, 4]"
    by (simp add: D_def A_def tensor_to_vector_impl_def num_total_elements_def
        num_elements_per_sample_def upt_4)
  have b: "tensor_to_vector_impl D B = [5, 6, 7, 8]"
    by (simp add: D_def B_def tensor_to_vector_impl_def num_total_elements_def
        num_elements_per_sample_def upt_4)
  have "\<exists>ret dev'. dot_impl D 24 A B = (Inr ret, dev')
      \<and> t_shape ret = \<lparr>dims = [2, 2], batch = 1\<rparr>
      \<and> tensor_to_vector_impl dev' ret = [23, 34, 31, 46]"
    by (rule dot_2x2_example [OF _ _ a b]) (simp_all add: A_def B_def)
  with a b show ?thesis
    by (simp add: Let_def D_def A_def B_def)
qed

section \<open>Elementwise kernels on two tensors\<close>

text \<open>
  \<open>add_impl\<close>, \<open>subtract_impl\<close>, \<open>multiply_impl\<close> and \<open>divide_impl\<close> on two tensors have the
  same body but for the operator; \<open>binary_impl\<close> is that body. The factor
  \<^verbatim>\<open>(sa.batch_size() > 1)\<close> is 1 or 0.

  \<open>sample_elem dev x i k\<close> reads the element of \<open>x\<close> at index \<open>i\<close> of its batch entry \<open>k\<close>,
  and of its only entry when the batch size of \<open>x\<close> is 1.
\<close>

definition binary_impl ::
  "('a \<Rightarrow> 'a \<Rightarrow> 'a) \<Rightarrow> 'a CPUDevice \<Rightarrow> addr \<Rightarrow> Tensor \<Rightarrow> Tensor \<Rightarrow> (error + Tensor) \<times> 'a CPUDevice" where
  "binary_impl f dev data a b =
     (let sa = t_shape a;
          sb = t_shape b;
          size = num_elements_per_sample sa;
          bs = max (batch_size sa) (batch_size sb);
          skip_a = (if batch_size sa > 1 then 1 else 0) * size;
          skip_b = (if batch_size sb > 1 then 1 else 0) * size
      in case new_tensor dev data (resize_batch sa bs) of
           (Inl e, dev') \<Rightarrow> (Inl e, dev')
         | (Inr ret, dev') \<Rightarrow>
             (let src_a = mem dev' (t_data a);
                  src_b = mem dev' (t_data b);
                  (dest, pd, pa, pb) =
                    REPEAT_OP bs (\<lambda>b (dest, pd, pa, pb).
                      (REPEAT_OP size (\<lambda>i dest.
                         dest(pd + i := f (src_a (pa + i)) (src_b (pb + i)))) dest,
                       pd + size, pa + skip_a, pb + skip_b))
                      (mem dev' (t_data ret), 0, 0, 0)
              in (Inr ret, store dev' (t_data ret) dest)))"

definition add_impl :: "'a::plus CPUDevice \<Rightarrow> addr \<Rightarrow> Tensor \<Rightarrow> Tensor \<Rightarrow> (error + Tensor) \<times> 'a CPUDevice" where
  "add_impl = binary_impl (\<lambda>x y. x + y)"

definition subtract_impl :: "'a::minus CPUDevice \<Rightarrow> addr \<Rightarrow> Tensor \<Rightarrow> Tensor \<Rightarrow> (error + Tensor) \<times> 'a CPUDevice" where
  "subtract_impl = binary_impl (\<lambda>x y. x - y)"

definition multiply_impl :: "'a::times CPUDevice \<Rightarrow> addr \<Rightarrow> Tensor \<Rightarrow> Tensor \<Rightarrow> (error + Tensor) \<times> 'a CPUDevice" where
  "multiply_impl = binary_impl (\<lambda>x y. x * y)"

definition divide_impl :: "'a::inverse CPUDevice \<Rightarrow> addr \<Rightarrow> Tensor \<Rightarrow> Tensor \<Rightarrow> (error + Tensor) \<times> 'a CPUDevice" where
  "divide_impl = binary_impl (\<lambda>x y. x / y)"

definition sample_elem :: "'a CPUDevice \<Rightarrow> Tensor \<Rightarrow> nat \<Rightarrow> nat \<Rightarrow> 'a" where
  "sample_elem dev x i k =
     tensor_to_vector_impl dev x !
       ((if batch_size (t_shape x) = 1 then 0 else k) * num_elements_per_sample (t_shape x) + i)"

lemma REPEAT_OP_assign_offset:
  "REPEAT_OP n (\<lambda>i dest. dest(pd + i := g i)) dest =
     (\<lambda>j. if pd \<le> j \<and> j < pd + n then g (j - pd) else dest j)"
  by (induction n) (auto simp: REPEAT_OP_Suc REPEAT_OP_0 fun_eq_iff)

lemma block_index:
  fixes j :: nat
  assumes "n * sz \<le> j" "j < n * sz + sz"
  shows "j div sz = n" "j mod sz = j - n * sz"
proof -
  from assms have p: "0 < sz" by (cases sz) auto
  from assms show d: "j div sz = n"
    by (intro div_nat_eqI) (simp_all add: mult.commute)
  then show "j mod sz = j - n * sz"
    using minus_div_mult_eq_mod [of j sz] by simp
qed

lemma binary_loop:
  "REPEAT_OP n (\<lambda>b (dest, pd, pa, pb).
      (REPEAT_OP sz (\<lambda>i dest. dest(pd + i := f (src_a (pa + i)) (src_b (pb + i)))) dest,
       pd + sz, pa + skip_a, pb + skip_b)) (dest0, 0, 0, 0) =
   (\<lambda>j. if j < n * sz
         then f (src_a ((j div sz) * skip_a + j mod sz)) (src_b ((j div sz) * skip_b + j mod sz))
         else dest0 j,
    n * sz, n * skip_a, n * skip_b)"
proof (induction n)
  case 0
  then show ?case by (simp add: REPEAT_OP_0)
next
  case (Suc n)
  show ?case
    unfolding REPEAT_OP_Suc Suc
    by (auto simp: REPEAT_OP_assign_offset fun_eq_iff block_index)
qed


lemma index_bound:
  fixes k n i sz :: nat
  assumes "k < n" "i < sz"
  shows "k * sz + i < n * sz"
proof -
  have "k * sz + i < Suc k * sz" using assms(2) by simp
  also have "\<dots> \<le> n * sz" using assms(1) by (intro mult_le_mono1) simp
  finally show ?thesis .
qed

lemma index_div_mod:
  fixes k i sz :: nat
  assumes "i < sz"
  shows "(k * sz + i) div sz = k" "(k * sz + i) mod sz = i"
  using assms by simp_all

lemma binary_impl_ok:
  "data \<noteq> 0 \<Longrightarrow> binary_impl f dev data a b =
     (Inr \<lparr>t_shape = resize_batch (t_shape a) (max (batch (t_shape a)) (batch (t_shape b))),
           t_data = data\<rparr>,
      store (dev\<lparr>blocks := map_insert (blocks dev) data
          (mem_size (resize_batch (t_shape a) (max (batch (t_shape a)) (batch (t_shape b)))))\<rparr>) data
        (\<lambda>j. if j < max (batch (t_shape a)) (batch (t_shape b)) * num_elements_per_sample (t_shape a)
             then f (mem dev (t_data a)
                      ((j div num_elements_per_sample (t_shape a)) *
                         ((if batch (t_shape a) > 1 then 1 else 0) * num_elements_per_sample (t_shape a))
                       + j mod num_elements_per_sample (t_shape a)))
                    (mem dev (t_data b)
                      ((j div num_elements_per_sample (t_shape a)) *
                         ((if batch (t_shape b) > 1 then 1 else 0) * num_elements_per_sample (t_shape a))
                       + j mod num_elements_per_sample (t_shape a)))
             else mem dev data j))"
  by (simp add: binary_impl_def Let_def batch_size_def new_tensor_ok binary_loop cong: if_cong)

lemma binary_impl_elementwise:
  assumes "dims (t_shape a) = dims (t_shape b)"
    and "batch (t_shape a) = batch (t_shape b) \<or> batch (t_shape a) = 1 \<or> batch (t_shape b) = 1"
    and "1 \<le> batch (t_shape a)" and "1 \<le> batch (t_shape b)"
    and "data \<noteq> 0" and "data \<notin> dom (blocks dev)"
    and "t_data a \<in> dom (blocks dev)" and "t_data b \<in> dom (blocks dev)"
  shows "\<exists>ret dev'. binary_impl f dev data a b = (Inr ret, dev')
       \<and> t_data ret \<notin> dom (blocks dev)
       \<and> blocks dev' = (blocks dev)(t_data ret \<mapsto> mem_size (t_shape ret))
       \<and> dims (t_shape ret) = dims (t_shape a)
       \<and> batch (t_shape ret) = max (batch (t_shape a)) (batch (t_shape b))
       \<and> tensor_to_vector_impl dev' a = tensor_to_vector_impl dev a
       \<and> tensor_to_vector_impl dev' b = tensor_to_vector_impl dev b
       \<and> (\<forall>k < batch (t_shape ret). \<forall>i < num_elements_per_sample (t_shape ret).
            sample_elem dev' ret i k = f (sample_elem dev a i k) (sample_elem dev b i k))"
proof -
  define sz where "sz = num_elements_per_sample (t_shape a)"
  define bs where "bs = max (batch (t_shape a)) (batch (t_shape b))"
  define ret where "ret = \<lparr>t_shape = resize_batch (t_shape a) bs, t_data = data\<rparr>"
  define buf where "buf = (\<lambda>j. if j < bs * sz
             then f (mem dev (t_data a)
                      ((j div sz) * ((if batch (t_shape a) > 1 then 1 else 0) * sz) + j mod sz))
                    (mem dev (t_data b)
                      ((j div sz) * ((if batch (t_shape b) > 1 then 1 else 0) * sz) + j mod sz))
             else mem dev data j)"
  define dev' where "dev' = store (dev\<lparr>blocks := map_insert (blocks dev) data (mem_size (t_shape ret))\<rparr>) data buf"
  have r: "binary_impl f dev data a b = (Inr ret, dev')"
    using assms(5) by (simp add: binary_impl_ok ret_def dev'_def buf_def bs_def sz_def cong: if_cong)
  have szb: "num_elements_per_sample (t_shape b) = sz"
    using assms(1) by (simp add: sz_def num_elements_per_sample_def)
  have szr: "num_elements_per_sample (t_shape ret) = sz"
    by (simp add: ret_def sz_def resize_batch_def num_elements_per_sample_def)
  have br: "batch (t_shape ret) = bs"
    by (simp add: ret_def resize_batch_def)
  have dr: "t_data ret = data"
    by (simp add: ret_def)
  have na: "data \<noteq> t_data a" and nb: "data \<noteq> t_data b"
    using assms(6,7,8) by auto
  have ma: "mem dev' (t_data a) = mem dev (t_data a)" and mb: "mem dev' (t_data b) = mem dev (t_data b)"
    using na nb by (simp_all add: dev'_def mem_store)
  have elems: "sample_elem dev' ret i k = f (sample_elem dev a i k) (sample_elem dev b i k)"
    if k: "k < bs" and i: "i < sz" for k i
  proof -
    have ka: "(if batch (t_shape a) = 1 then 0 else k) < batch (t_shape a)"
      using k assms(2,3,4) by (auto simp: bs_def)
    have kb: "(if batch (t_shape b) = 1 then 0 else k) < batch (t_shape b)"
      using k assms(2,3,4) by (auto simp: bs_def)
    have kr: "(if bs = 1 then 0 else k) = k"
      using k by auto
    have ia: "(if batch (t_shape a) = 1 then 0 else k) * sz + i < num_total_elements (t_shape a)"
      using index_bound [OF ka i] by (simp add: num_total_elements_def sz_def mult.commute)
    have ib: "(if batch (t_shape b) = 1 then 0 else k) * sz + i < num_total_elements (t_shape b)"
      using index_bound [OF kb i] by (simp add: num_total_elements_def szb mult.commute)
    have ir: "k * sz + i < num_total_elements (t_shape ret)"
      using index_bound [OF k i] by (simp add: num_total_elements_def szr br mult.commute)
    have sa: "sample_elem dev a i k = mem dev (t_data a) ((if batch (t_shape a) = 1 then 0 else k) * sz + i)"
      using ia by (simp add: sample_elem_def batch_size_def to_vector_nth sz_def)
    have sb: "sample_elem dev b i k = mem dev (t_data b) ((if batch (t_shape b) = 1 then 0 else k) * sz + i)"
      using ib by (simp add: sample_elem_def batch_size_def to_vector_nth szb)
    have "sample_elem dev' ret i k = tensor_to_vector_impl dev' ret ! (k * sz + i)"
      using kr by (simp add: sample_elem_def batch_size_def szr br)
    also have "\<dots> = mem dev' (t_data ret) (k * sz + i)"
      using ir by (simp add: to_vector_nth)
    also have "\<dots> = buf (k * sz + i)"
      by (simp add: dev'_def mem_store dr)
    finally have sr: "sample_elem dev' ret i k = buf (k * sz + i)" .
    have "buf (k * sz + i) = f (mem dev (t_data a) ((if batch (t_shape a) = 1 then 0 else k) * sz + i))
        (mem dev (t_data b) ((if batch (t_shape b) = 1 then 0 else k) * sz + i))"
      using index_bound [OF k i] i assms(3,4) by (auto simp: buf_def)
    with sa sb sr show ?thesis by simp
  qed
  have "t_data ret \<notin> dom (blocks dev)"
    using assms(6) by (simp add: ret_def)
  moreover have "blocks dev' = (blocks dev)(t_data ret \<mapsto> mem_size (t_shape ret))"
    using assms(6) by (simp add: dev'_def blocks_store map_insert_fresh domIff ret_def)
  moreover have "dims (t_shape ret) = dims (t_shape a)"
    by (simp add: ret_def resize_batch_def)
  moreover have "tensor_to_vector_impl dev' a = tensor_to_vector_impl dev a"
    by (simp add: tensor_to_vector_impl_def ma)
  moreover have "tensor_to_vector_impl dev' b = tensor_to_vector_impl dev b"
    by (simp add: tensor_to_vector_impl_def mb)
  ultimately show ?thesis
    using r br elems szr bs_def by auto
qed


text \<open>
  Claim C3. Let \<open>a\<close> and \<open>b\<close> be live tensors of one per-sample shape whose batch sizes
  are equal or one of them 1, and let the allocation succeed. Then each of the four
  kernels returns a tensor over the new block, of the per-sample shape of the operands
  and of the larger batch size, leaves the operands as they were, and the element at
  index \<open>i\<close> of batch entry \<open>k\<close> of the result is the operator applied to the elements
  \<open>(i, k)\<close> of \<open>a\<close> and of \<open>b\<close>, an operand of batch size 1 giving its only sample for
  every \<open>k\<close>.
\<close>

theorem elementwise_binary_broadcast:
  fixes dev :: "'a::{plus,minus,times,inverse} CPUDevice"
  assumes "dims (t_shape a) = dims (t_shape b)"
    and "batch (t_shape a) = batch (t_shape b) \<or> batch (t_shape a) = 1 \<or> batch (t_shape b) = 1"
    and "1 \<le> batch (t_shape a)" and "1 \<le> batch (t_shape b)"
    and "data \<noteq> 0" and "data \<notin> dom (blocks dev)"
    and "t_data a \<in> dom (blocks dev)" and "t_data b \<in> dom (blocks dev)"
  shows "\<forall>(f, kernel) \<in> set [((+), add_impl), ((-), subtract_impl),
                            ((*), multiply_impl), ((/), divide_impl)].
     \<exists>ret dev'. kernel dev data a b = (Inr ret, dev')
       \<and> t_data ret \<notin> dom (blocks dev)
       \<and> blocks dev' = (blocks dev)(t_data ret \<mapsto> mem_size (t_shape ret))
       \<and> dims (t_shape ret) = dims (t_shape a)
       \<and> batch (t_shape ret) = max (batch (t_shape a)) (batch (t_shape b))
       \<and> tensor_to_vector_impl dev' a = tensor_to_vector_impl dev a
       \<and> tensor_to_vector_impl dev' b = tensor_to_vector_impl dev b
       \<and> (\<forall>k < batch (t_shape ret). \<forall>i < num_elements_per_sample (t_shape ret).
            sample_elem dev' ret i k = f (sample_elem dev a i k) (sample_elem dev b i k))"
  using binary_impl_elementwise [OF assms, of "(+)"] binary_impl_elementwise [OF assms, of "(-)"]
    binary_impl_elementwise [OF assms, of "(*)"] binary_impl_elementwise [OF assms, of "(/)"]
  by (simp add: add_impl_def subtract_impl_def multiply_impl_def divide_impl_def)

theorem elementwise_binary_broadcast_witness:
  "(let D = \<lparr>blocks = [8 \<mapsto> 16, 16 \<mapsto> 8],
               mem = (\<lambda>p i. if p = 8 then real (i + 1) else if p = 16 then 10 * real (i + 1) else 0)\<rparr>;
        A = \<lparr>t_shape = \<lparr>dims = [2], batch = 2\<rparr>, t_data = 8\<rparr>;
        B = \<lparr>t_shape = \<lparr>dims = [2], batch = 1\<rparr>, t_data = 16\<rparr>;
        R = \<lparr>t_shape = \<lparr>dims = [2], batch = 2\<rparr>, t_data = 24\<rparr>
    in dims (t_shape A) = dims (t_shape B) \<and> batch (t_shape B) = 1
       \<and> 1 \<le> batch (t_shape A) \<and> 1 \<le> batch (t_shape B)
       \<and> (24::nat) \<noteq> 0 \<and> 24 \<notin> dom (blocks D)
       \<and> t_data A \<in> dom (blocks D) \<and> t_data B \<in> dom (blocks D)
       \<and> tensor_to_vector_impl D A = [1, 2, 3, 4]
       \<and> tensor_to_vector_impl D B = [10, 20]
       \<and> fst (add_impl D 24 A B) = Inr R
       \<and> tensor_to_vector_impl (snd (add_impl D 24 A B)) R = [11, 22, 13, 24]
       \<and> tensor_to_vector_impl (snd (subtract_impl D 24 A B)) R = [-9, -18, -7, -16]
       \<and> tensor_to_vector_impl (snd (multiply_impl D 24 A B)) R = [10, 40, 30, 80]
       \<and> tensor_to_vector_impl (snd (divide_impl D 24 A B)) R = [1/10, 1/10, 3/10, 1/5]
       \<and> (\<exists>ret dev'. add_impl D 24 A B = (Inr ret, dev')
            \<and> sample_elem dev' ret 1 1 = sample_elem D A 1 1 + sample_elem D B 1 1))"
  using elementwise_binary_broadcast
    [of "\<lparr>t_shape = \<lparr>dims = [2], batch = 2\<rparr>, t_data = 8\<rparr>"
        "\<lparr>t_shape = \<lparr>dims = [2], batch = 1\<rparr>, t_data = 16\<rparr>" 24
        "\<lparr>blocks = [8 \<mapsto> 16, 16 \<mapsto> 8],
          mem = (\<lambda>p i. if p = 8 then real (i + 1) else if p = 16 then 10 * real (i + 1) else 0)\<rparr>"]
  by (simp add: Let_def add_impl_def subtract_impl_def multiply_impl_def divide_impl_def
      binary_impl_ok resize_batch_def tensor_to_vector_impl_def mem_store
      num_total_elements_def num_elements_per_sample_def upt_2 upt_4)



section \<open>Gradient accumulation in place\<close>

text \<open>
  \<open>add_gradient_impl\<close> writes the block of its first argument, and it is the one kernel
  here whose two arguments may be the same tensor, so its loops run on the memory
  itself: each \<^verbatim>\<open>dest[i] += src[i]\<close> reads both blocks as they are at that moment. The
  result is the tensor \<open>a\<close> after the call, with the device.
\<close>

definition add_gradient_impl :: "'a::plus CPUDevice \<Rightarrow> Tensor \<Rightarrow> Tensor \<Rightarrow> Tensor \<times> 'a CPUDevice" where
  "add_gradient_impl dev a b =
     (let sa = t_shape a;
          sb = t_shape b;
          size = num_elements_per_sample sa;
          bs = max (batch_size sa) (batch_size sb);
          b_skip_d = (if batch_size sa > 1 then 1 else 0) * size;
          b_skip_s = (if batch_size sb > 1 then 1 else 0) * size;
          dest = t_data a;
          src = t_data b;
          (m, pd, ps) =
            REPEAT_OP bs (\<lambda>_ (m, pd, ps).
              (REPEAT_OP size (\<lambda>i m.
                 m(dest := (m dest)(pd + i := m dest (pd + i) + m src (ps + i)))) m,
               pd + b_skip_d, ps + b_skip_s))
              (mem dev, 0, 0)
      in (a, dev\<lparr>mem := m\<rparr>))"

lemma add_span:
  fixes m :: "addr \<Rightarrow> nat \<Rightarrow> 'a::plus"
  assumes "pa \<noteq> pb \<or> pd = ps"
  shows "REPEAT_OP n (\<lambda>i m. m(pa := (m pa)(pd + i := m pa (pd + i) + m pb (ps + i)))) m =
     m(pa := (\<lambda>j. if pd \<le> j \<and> j < pd + n then m pa j + m pb (ps + (j - pd)) else m pa j))"
proof (induction n)
  case 0
  show ?case by (auto simp: REPEAT_OP_0 fun_eq_iff)
next
  case (Suc n)
  show ?case
    unfolding REPEAT_OP_Suc Suc using assms
    by (auto simp: fun_eq_iff)
qed

lemma add_gradient_loop_equal:
  fixes m0 :: "addr \<Rightarrow> nat \<Rightarrow> 'a::plus"
  shows "REPEAT_OP n (\<lambda>b (m, pd, ps).
        (REPEAT_OP sz (\<lambda>i m. m(pa := (m pa)(pd + i := m pa (pd + i) + m pb (ps + i)))) m,
         pd + sz, ps + sz)) (m0, 0, 0) =
     (m0(pa := (\<lambda>j. if j < n * sz then m0 pa j + m0 pb j else m0 pa j)), n * sz, n * sz)"
proof (induction n)
  case 0
  show ?case by (auto simp: REPEAT_OP_0 fun_eq_iff)
next
  case (Suc n)
  show ?case
    unfolding REPEAT_OP_Suc Suc
    by (auto simp: add_span fun_eq_iff)
qed

lemma add_gradient_loop_reduce:
  fixes m0 :: "addr \<Rightarrow> nat \<Rightarrow> 'a::plus"
  assumes "pa \<noteq> pb"
  shows "REPEAT_OP n (\<lambda>b (m, pd, ps).
        (REPEAT_OP sz (\<lambda>i m. m(pa := (m pa)(pd + i := m pa (pd + i) + m pb (ps + i)))) m,
         pd + 0, ps + sz)) (m0, 0, 0) =
     (m0(pa := (\<lambda>j. if j < sz then foldl (+) (m0 pa j) (map (\<lambda>k. m0 pb (k * sz + j)) [0..<n])
                      else m0 pa j)), 0, n * sz)"
proof (induction n)
  case 0
  show ?case by (auto simp: REPEAT_OP_0 fun_eq_iff)
next
  case (Suc n)
  show ?case
    unfolding REPEAT_OP_Suc Suc using assms
    by (auto simp: add_span fun_eq_iff)
qed

lemma add_gradient_loop_spread:
  fixes m0 :: "addr \<Rightarrow> nat \<Rightarrow> 'a::plus"
  assumes "pa \<noteq> pb"
  shows "REPEAT_OP n (\<lambda>b (m, pd, ps).
        (REPEAT_OP sz (\<lambda>i m. m(pa := (m pa)(pd + i := m pa (pd + i) + m pb (ps + i)))) m,
         pd + sz, ps + 0)) (m0, 0, 0) =
     (m0(pa := (\<lambda>j. if j < n * sz then m0 pa j + m0 pb (j mod sz) else m0 pa j)), n * sz, 0)"
proof (induction n)
  case 0
  show ?case by (auto simp: REPEAT_OP_0 fun_eq_iff)
next
  case (Suc n)
  show ?case
    unfolding REPEAT_OP_Suc Suc using assms
    by (auto simp: add_span fun_eq_iff block_index)
qed


lemma REPEAT_OP_1: "REPEAT_OP (Suc 0) op s = op 0 s"
  by (simp add: REPEAT_OP_def)

lemma add_gradient_equal:
  fixes dev :: "'a::plus CPUDevice"
  assumes "batch (t_shape a) = batch (t_shape b)"
  shows "add_gradient_impl dev a b =
     (a, dev\<lparr>mem := (mem dev)(t_data a :=
        (\<lambda>j. if j < batch (t_shape a) * num_elements_per_sample (t_shape a)
              then mem dev (t_data a) j + mem dev (t_data b) j
              else mem dev (t_data a) j))\<rparr>)"
proof -
  consider "batch (t_shape a) = 0" | "batch (t_shape a) = Suc 0" | "1 < batch (t_shape a)"
    by arith
  then show ?thesis
  proof cases
    case 1
    with assms show ?thesis
      by (simp add: add_gradient_impl_def Let_def batch_size_def REPEAT_OP_0)
  next
    case 2
    with assms have b: "batch (t_shape b) = Suc 0" by simp
    show ?thesis
      using add_span [of "t_data a" "t_data b" 0 0 "num_elements_per_sample (t_shape a)" "mem dev"]
      by (simp add: add_gradient_impl_def Let_def batch_size_def 2 b REPEAT_OP_1 cong: if_cong)
  next
    case 3
    with assms show ?thesis
      by (simp add: add_gradient_impl_def Let_def batch_size_def add_gradient_loop_equal)
  qed
qed

lemma add_gradient_reduce:
  fixes dev :: "'a::plus CPUDevice"
  assumes "batch (t_shape a) = 1" and "1 \<le> batch (t_shape b)"
    and "t_data a = t_data b \<longrightarrow> batch (t_shape a) = batch (t_shape b)"
  shows "add_gradient_impl dev a b =
     (a, dev\<lparr>mem := (mem dev)(t_data a :=
        (\<lambda>j. if j < num_elements_per_sample (t_shape a)
              then foldl (+) (mem dev (t_data a) j)
                     (map (\<lambda>k. mem dev (t_data b) (k * num_elements_per_sample (t_shape a) + j))
                        [0..<batch (t_shape b)])
              else mem dev (t_data a) j))\<rparr>)"
proof (cases "batch (t_shape b) = 1")
  case True
  with assms(1) show ?thesis
    by (auto simp: add_gradient_equal fun_eq_iff)
next
  case False
  with assms have "1 < batch (t_shape b)" and "t_data a \<noteq> t_data b" by auto
  with assms(1) show ?thesis
    using add_gradient_loop_reduce [of "t_data a" "t_data b" "batch (t_shape b)"
        "num_elements_per_sample (t_shape a)" "mem dev"]
    by (simp add: add_gradient_impl_def Let_def batch_size_def max_def)
qed

lemma add_gradient_spread:
  fixes dev :: "'a::plus CPUDevice"
  assumes "batch (t_shape b) = 1" and "1 \<le> batch (t_shape a)"
    and "t_data a = t_data b \<longrightarrow> batch (t_shape a) = batch (t_shape b)"
  shows "add_gradient_impl dev a b =
     (a, dev\<lparr>mem := (mem dev)(t_data a :=
        (\<lambda>j. if j < batch (t_shape a) * num_elements_per_sample (t_shape a)
              then mem dev (t_data a) j + mem dev (t_data b) (j mod num_elements_per_sample (t_shape a))
              else mem dev (t_data a) j))\<rparr>)"
proof (cases "batch (t_shape a) = 1")
  case True
  with assms(1) show ?thesis
    by (auto simp: add_gradient_equal fun_eq_iff)
next
  case False
  with assms have "1 < batch (t_shape a)" and "t_data a \<noteq> t_data b" by auto
  with assms(1) show ?thesis
    using add_gradient_loop_spread [of "t_data a" "t_data b" "batch (t_shape a)"
        "num_elements_per_sample (t_shape a)" "mem dev"]
    by (simp add: add_gradient_impl_def Let_def batch_size_def max_def)
qed


lemma add_span_frame:
  "p \<noteq> pa \<Longrightarrow>
   REPEAT_OP n (\<lambda>i m. m(pa := (m pa)(pd + i := m pa (pd + i) + m pb (ps + i)))) m p = m p"
  by (induction n) (simp_all add: REPEAT_OP_Suc REPEAT_OP_0)

lemma add_gradient_loop_frame:
  "p \<noteq> pa \<Longrightarrow>
   fst (REPEAT_OP n (\<lambda>_ (m, pd, ps).
        (REPEAT_OP sz (\<lambda>i m. m(pa := (m pa)(pd + i := m pa (pd + i) + m pb (ps + i)))) m,
         pd + skd, ps + sks)) s) p = fst s p"
  by (induction n) (auto simp: REPEAT_OP_Suc REPEAT_OP_0 add_span_frame split: prod.splits)

lemma add_gradient_frame:
  assumes "p \<noteq> t_data a"
  shows "mem (snd (add_gradient_impl dev a b)) p = mem dev p"
proof -
  define st where "st = REPEAT_OP (max (batch_size (t_shape a)) (batch_size (t_shape b)))
       (\<lambda>_ (m, pd, ps).
          (REPEAT_OP (num_elements_per_sample (t_shape a))
             (\<lambda>i m. m(t_data a := (m (t_data a))
                  (pd + i := m (t_data a) (pd + i) + m (t_data b) (ps + i)))) m,
           pd + (if batch_size (t_shape a) > 1 then 1 else 0) * num_elements_per_sample (t_shape a),
           ps + (if batch_size (t_shape b) > 1 then 1 else 0) * num_elements_per_sample (t_shape a)))
       (mem dev, 0, 0)"
  have "fst st p = fst (mem dev, 0::nat, 0::nat) p"
    unfolding st_def by (rule add_gradient_loop_frame [OF assms])
  moreover have "snd (add_gradient_impl dev a b) = dev\<lparr>mem := fst st\<rparr>"
    unfolding add_gradient_impl_def Let_def st_def [symmetric] by (cases st) simp
  ultimately show ?thesis by simp
qed

lemma foldl_add_sum:
  fixes d :: "'a::comm_monoid_add"
  shows "foldl (+) d (map f [0..<n]) = d + (\<Sum>k<n. f k)"
  by (induction n) (simp_all add: add.assoc)


subsection \<open>Addition of floats on integers\<close>

text \<open>
  The sum of two \<^verbatim>\<open>float\<close>s is their exact sum rounded to the nearest \<^verbatim>\<open>float\<close>, a tie going
  to the one with the even significand. On the \<^verbatim>\<open>float\<close>s that are integers this is
  \<open>round_to_float\<close> of the sum of the integers: an integer of magnitude below \<open>2^24\<close> is
  a \<^verbatim>\<open>float\<close>, and a larger one has \<open>excess_bits\<close> bits more than the 24 of a
  significand and is rounded at these. \<open>F n\<close> is the \<^verbatim>\<open>float\<close> of value \<open>n\<close>. Sums that
  overflow (a magnitude of \<open>2^128\<close> and more) are not modelled; none occurs below.
\<close>

datatype float_int = F int

fun excess_bits :: "nat \<Rightarrow> nat" where
  "excess_bits m = (if m < 2 ^ 24 then 0 else Suc (excess_bits (m div 2)))"

definition round_to_float :: "int \<Rightarrow> int" where
  "round_to_float s =
     (let m = nat \<bar>s\<bar>;
          k = excess_bits m;
          q = m div 2 ^ k;
          r = m mod 2 ^ k;
          q' = (if 2 ^ k < 2 * r \<or> (2 * r = 2 ^ k \<and> odd q) then q + 1 else q)
      in sgn s * int (q' * 2 ^ k))"

instantiation float_int :: plus
begin

definition plus_float_int :: "float_int \<Rightarrow> float_int \<Rightarrow> float_int" where
  "plus_float_int a b = (case (a, b) of (F x, F y) \<Rightarrow> F (round_to_float (x + y)))"

instance ..

end

declare excess_bits.simps [simp del]

lemma excess_bits_small: "m < 2 ^ 24 \<Longrightarrow> excess_bits m = 0"
  by (simp add: excess_bits.simps [of m])

lemma excess_bits_examples:
  "excess_bits 16777216 = 1" "excess_bits 16777217 = 1"
  by (simp_all add: excess_bits.simps [of 16777216] excess_bits.simps [of 16777217]
      excess_bits_small)

lemma float_int_sums:
  "F 1 + F 16777216 = F 16777216" "F 16777216 + F (- 16777216) = F 0" "F 1 + F 0 = F 1"
  "F 0 + F 1 = F 1"
  by (simp_all add: plus_float_int_def round_to_float_def excess_bits_examples
      excess_bits_small)

lemma round_to_float_exact: "\<bar>s\<bar> < 2 ^ 24 \<Longrightarrow> round_to_float s = s"
  by (simp add: round_to_float_def excess_bits_small nat_less_iff mult_sgn_abs)

text \<open>
  Claim C4, as stated, fails where the addition of \<^verbatim>\<open>float\<close> rounds. For \<open>dst = [1]\<close> of
  batch size 1 and \<open>src = [2^24, -2^24]\<close> of batch size 2 the loop computes
  \<open>(1 + 2^24) + -2^24\<close>, which is 0 because \<open>1 + 2^24\<close> rounds to \<open>2^24\<close>; the sum over the
  samples of \<open>src\<close> is 0, and added to \<open>dst\<close> it gives 1.
\<close>

theorem add_gradient_sum_counterexample:
  "tensor_to_vector_impl
      \<lparr>blocks = [8 \<mapsto> 4, 16 \<mapsto> 8],
       mem = (\<lambda>p i. if p = 8 then F 1 else if i = 0 then F 16777216 else F (- 16777216))\<rparr>
      \<lparr>t_shape = \<lparr>dims = [1], batch = 1\<rparr>, t_data = 8\<rparr> = [F 1]
   \<and> tensor_to_vector_impl
      \<lparr>blocks = [8 \<mapsto> 4, 16 \<mapsto> 8],
       mem = (\<lambda>p i. if p = 8 then F 1 else if i = 0 then F 16777216 else F (- 16777216))\<rparr>
      \<lparr>t_shape = \<lparr>dims = [1], batch = 2\<rparr>, t_data = 16\<rparr> = [F 16777216, F (- 16777216)]
   \<and> tensor_to_vector_impl
      (snd (add_gradient_impl
        \<lparr>blocks = [8 \<mapsto> 4, 16 \<mapsto> 8],
         mem = (\<lambda>p i. if p = 8 then F 1 else if i = 0 then F 16777216 else F (- 16777216))\<rparr>
        \<lparr>t_shape = \<lparr>dims = [1], batch = 1\<rparr>, t_data = 8\<rparr>
        \<lparr>t_shape = \<lparr>dims = [1], batch = 2\<rparr>, t_data = 16\<rparr>))
      \<lparr>t_shape = \<lparr>dims = [1], batch = 1\<rparr>, t_data = 8\<rparr> = [F 0]
   \<and> F 1 + (F 16777216 + F (- 16777216)) = F 1
   \<and> (F 16777216 + F (- 16777216)) + F 1 = F 1
   \<and> F 0 \<noteq> F 1"
  by (simp add: add_gradient_reduce tensor_to_vector_impl_def num_total_elements_def
      num_elements_per_sample_def upt_2 float_int_sums)

text \<open>
  Claim C4, amended. Let \<open>dst\<close> and \<open>src\<close> have one per-sample shape and batch sizes of at
  least 1, and let them be the same tensor if they share a block. \<open>add_gradient_impl\<close>
  returns \<open>dst\<close> with its shape, leaves the registry and every other block as they were,
  and
  \<^item> when the batch sizes are equal, every element of \<open>dst\<close> has the element of \<open>src\<close> at
    the same index added;
  \<^item> when \<open>dst\<close> has batch size 1, element \<open>i\<close> of \<open>dst\<close> has the elements \<open>i\<close> of the
    samples of \<open>src\<close> added one after the other, in the order of the batch:
    \<open>((dst[i] + src\<^sub>0[i]) + src\<^sub>1[i]) + \<dots>\<close> (by \<open>foldl_add_sum\<close> this is \<open>dst[i]\<close> plus the
    sum over the samples where addition is associative and commutative, which the
    addition of \<^verbatim>\<open>float\<close> is not);
  \<^item> when \<open>src\<close> has batch size 1, every sample of \<open>dst\<close> has the one sample of \<open>src\<close>
    added.
\<close>

theorem add_gradient_broadcast:
  fixes dev :: "'a::plus CPUDevice"
  assumes "dims (t_shape dst) = dims (t_shape src)"
    and "1 \<le> batch (t_shape dst)" and "1 \<le> batch (t_shape src)"
    and "t_data dst = t_data src \<longrightarrow> t_shape dst = t_shape src"
  shows "\<exists>dev'. add_gradient_impl dev dst src = (dst, dev')
     \<and> blocks dev' = blocks dev
     \<and> (\<forall>p. p \<noteq> t_data dst \<longrightarrow> mem dev' p = mem dev p)
     \<and> (batch (t_shape dst) = batch (t_shape src) \<longrightarrow>
          (\<forall>j < num_total_elements (t_shape dst).
             tensor_to_vector_impl dev' dst ! j =
               tensor_to_vector_impl dev dst ! j + tensor_to_vector_impl dev src ! j))
     \<and> (batch (t_shape dst) = 1 \<longrightarrow>
          (\<forall>i < num_elements_per_sample (t_shape dst).
             tensor_to_vector_impl dev' dst ! i =
               foldl (+) (tensor_to_vector_impl dev dst ! i)
                 (map (\<lambda>k. tensor_to_vector_impl dev src !
                            (k * num_elements_per_sample (t_shape dst) + i))
                    [0..<batch (t_shape src)])))
     \<and> (batch (t_shape src) = 1 \<longrightarrow>
          (\<forall>k < batch (t_shape dst). \<forall>i < num_elements_per_sample (t_shape dst).
             tensor_to_vector_impl dev' dst ! (k * num_elements_per_sample (t_shape dst) + i) =
               tensor_to_vector_impl dev dst ! (k * num_elements_per_sample (t_shape dst) + i)
               + tensor_to_vector_impl dev src ! i))"
proof -
  define sz where "sz = num_elements_per_sample (t_shape dst)"
  define dev' where "dev' = snd (add_gradient_impl dev dst src)"
  have szs: "num_elements_per_sample (t_shape src) = sz"
    using assms(1) by (simp add: sz_def num_elements_per_sample_def)
  have td: "num_total_elements (t_shape dst) = batch (t_shape dst) * sz"
    by (simp add: num_total_elements_def sz_def)
  have ts: "num_total_elements (t_shape src) = batch (t_shape src) * sz"
    by (simp add: num_total_elements_def szs)
  have al: "t_data dst = t_data src \<longrightarrow> batch (t_shape dst) = batch (t_shape src)"
    using assms(4) by auto
  have run: "add_gradient_impl dev dst src = (dst, dev')"
    by (simp add: dev'_def add_gradient_impl_def Let_def split: prod.splits)
  have regs: "blocks dev' = blocks dev"
    by (simp add: dev'_def add_gradient_impl_def Let_def split: prod.splits)
  have others: "mem dev' p = mem dev p" if "p \<noteq> t_data dst" for p
    using that by (simp add: dev'_def add_gradient_frame)
  have eq: "tensor_to_vector_impl dev' dst ! j =
      tensor_to_vector_impl dev dst ! j + tensor_to_vector_impl dev src ! j"
    if "batch (t_shape dst) = batch (t_shape src)" and "j < num_total_elements (t_shape dst)" for j
    using that td ts
    by (simp add: dev'_def add_gradient_equal to_vector_nth sz_def)
  have red: "tensor_to_vector_impl dev' dst ! i =
      foldl (+) (tensor_to_vector_impl dev dst ! i)
        (map (\<lambda>k. tensor_to_vector_impl dev src ! (k * sz + i)) [0..<batch (t_shape src)])"
    if b: "batch (t_shape dst) = 1" and i: "i < sz" for i
  proof -
    have m: "map (\<lambda>k. tensor_to_vector_impl dev src ! (k * sz + i)) [0..<batch (t_shape src)] =
        map (\<lambda>k. mem dev (t_data src) (k * sz + i)) [0..<batch (t_shape src)]"
      using index_bound [OF _ i] by (intro map_cong) (simp_all add: to_vector_nth ts)
    have "tensor_to_vector_impl dev' dst ! i =
        foldl (+) (mem dev (t_data dst) i)
          (map (\<lambda>k. mem dev (t_data src) (k * sz + i)) [0..<batch (t_shape src)])"
      using b i td assms(3) al
      by (simp add: dev'_def add_gradient_reduce to_vector_nth sz_def)
    moreover have "tensor_to_vector_impl dev dst ! i = mem dev (t_data dst) i"
      using b i td by (simp add: to_vector_nth)
    ultimately show ?thesis
      unfolding m by simp
  qed
  have spr: "tensor_to_vector_impl dev' dst ! (k * sz + i) =
      tensor_to_vector_impl dev dst ! (k * sz + i) + tensor_to_vector_impl dev src ! i"
    if b: "batch (t_shape src) = 1" and k: "k < batch (t_shape dst)" and i: "i < sz" for k i
    using b i index_bound [OF k i] td ts assms(2) al
    by (simp add: dev'_def add_gradient_spread to_vector_nth sz_def)
  show ?thesis
  proof (intro exI [of _ dev'] conjI allI impI)
    show "add_gradient_impl dev dst src = (dst, dev')" by (rule run)
    show "blocks dev' = blocks dev" by (rule regs)
  qed (simp_all add: others eq red [unfolded sz_def] spr [unfolded sz_def])
qed


theorem add_gradient_broadcast_witness:
  "(let D = \<lparr>blocks = [8 \<mapsto> 8, 16 \<mapsto> 16, 32 \<mapsto> 16],
               mem = (\<lambda>p i. if p = 8 then real (i + 1) else if p = 16 then 10 * real (i + 1)
                             else 100 * real (i + 1))\<rparr>;
        V = \<lparr>t_shape = \<lparr>dims = [2], batch = 1\<rparr>, t_data = 8\<rparr>;
        X = \<lparr>t_shape = \<lparr>dims = [2], batch = 2\<rparr>, t_data = 16\<rparr>;
        Y = \<lparr>t_shape = \<lparr>dims = [2], batch = 2\<rparr>, t_data = 32\<rparr>
    in tensor_to_vector_impl D V = [1, 2]
       \<and> tensor_to_vector_impl D X = [10, 20, 30, 40]
       \<and> tensor_to_vector_impl D Y = [100, 200, 300, 400]
       \<and> dims (t_shape V) = dims (t_shape X) \<and> dims (t_shape X) = dims (t_shape Y)
       \<and> 1 \<le> batch (t_shape V) \<and> 1 \<le> batch (t_shape X) \<and> 1 \<le> batch (t_shape Y)
       \<and> t_data V \<noteq> t_data X \<and> t_data X \<noteq> t_data Y
       \<and> batch (t_shape V) = 1 \<and> batch (t_shape X) = batch (t_shape Y)
       \<and> fst (add_gradient_impl D V X) = V
       \<and> tensor_to_vector_impl (snd (add_gradient_impl D V X)) V = [41, 62]
       \<and> tensor_to_vector_impl (snd (add_gradient_impl D X V)) X = [11, 22, 31, 42]
       \<and> tensor_to_vector_impl (snd (add_gradient_impl D X Y)) X = [110, 220, 330, 440]
       \<and> tensor_to_vector_impl (snd (add_gradient_impl D X X)) X = [20, 40, 60, 80]
       \<and> (\<exists>dev'. add_gradient_impl D V X = (V, dev') \<and> blocks dev' = blocks D
            \<and> tensor_to_vector_impl dev' V ! 1 =
                foldl (+) (tensor_to_vector_impl D V ! 1)
                  (map (\<lambda>k. tensor_to_vector_impl D X ! (k * 2 + 1)) [0..<2]))
       \<and> (\<exists>dev'. add_gradient_impl D X V = (X, dev')
            \<and> tensor_to_vector_impl dev' X ! (1 * 2 + 1) =
                tensor_to_vector_impl D X ! (1 * 2 + 1) + tensor_to_vector_impl D V ! 1)
       \<and> (\<exists>dev'. add_gradient_impl D X Y = (X, dev')
            \<and> tensor_to_vector_impl dev' X ! 3 =
                tensor_to_vector_impl D X ! 3 + tensor_to_vector_impl D Y ! 3))"
proof -
  define D :: "real CPUDevice" where "D = \<lparr>blocks = [8 \<mapsto> 8, 16 \<mapsto> 16, 32 \<mapsto> 16],
      mem = (\<lambda>p i. if p = 8 then real (i + 1) else if p = 16 then 10 * real (i + 1)
                    else 100 * real (i + 1))\<rparr>"
  define V where "V = \<lparr>t_shape = \<lparr>dims = [2], batch = 1\<rparr>, t_data = 8\<rparr>"
  define X where "X = \<lparr>t_shape = \<lparr>dims = [2], batch = 2\<rparr>, t_data = 16\<rparr>"
  define Y where "Y = \<lparr>t_shape = \<lparr>dims = [2], batch = 2\<rparr>, t_data = 32\<rparr>"
  note defs = D_def V_def X_def Y_def
  note ev = tensor_to_vector_impl_def num_total_elements_def num_elements_per_sample_def
    upt_2 upt_4
  have n: "num_elements_per_sample (t_shape V) = 2" "num_elements_per_sample (t_shape X) = 2"
    "num_total_elements (t_shape X) = 4" "batch (t_shape V) = 1" "batch (t_shape X) = 2"
    "batch (t_shape Y) = 2"
    by (simp_all add: defs num_elements_per_sample_def num_total_elements_def)
  have d: "dims (t_shape V) = dims (t_shape X)" "dims (t_shape X) = dims (t_shape V)"
    "dims (t_shape X) = dims (t_shape Y)"
    by (simp_all add: defs)
  have a: "t_data V = t_data X \<longrightarrow> t_shape V = t_shape X"
    "t_data X = t_data V \<longrightarrow> t_shape X = t_shape V"
    "t_data X = t_data Y \<longrightarrow> t_shape X = t_shape Y"
    by (simp_all add: defs)
  have 1: "\<exists>dev'. add_gradient_impl D V X = (V, dev') \<and> blocks dev' = blocks D
       \<and> tensor_to_vector_impl dev' V ! 1 =
           foldl (+) (tensor_to_vector_impl D V ! 1)
             (map (\<lambda>k. tensor_to_vector_impl D X ! (k * 2 + 1)) [0..<2])"
  proof -
    from add_gradient_broadcast [OF d(1) _ _ a(1), of D]
    obtain dev' where r: "add_gradient_impl D V X = (V, dev')" "blocks dev' = blocks D"
      and e: "batch (t_shape V) = 1 \<longrightarrow>
        (\<forall>i < num_elements_per_sample (t_shape V).
           tensor_to_vector_impl dev' V ! i =
             foldl (+) (tensor_to_vector_impl D V ! i)
               (map (\<lambda>k. tensor_to_vector_impl D X ! (k * num_elements_per_sample (t_shape V) + i))
                  [0..<batch (t_shape X)]))"
      unfolding n by auto
    from e [rule_format, of 1] r show ?thesis
      by (simp add: n)
  qed
  have 2: "\<exists>dev'. add_gradient_impl D X V = (X, dev')
       \<and> tensor_to_vector_impl dev' X ! (1 * 2 + 1) =
           tensor_to_vector_impl D X ! (1 * 2 + 1) + tensor_to_vector_impl D V ! 1"
  proof -
    from add_gradient_broadcast [OF d(2) _ _ a(2), of D]
    obtain dev' where r: "add_gradient_impl D X V = (X, dev')"
      and e: "batch (t_shape V) = 1 \<longrightarrow>
        (\<forall>k < batch (t_shape X). \<forall>i < num_elements_per_sample (t_shape X).
           tensor_to_vector_impl dev' X ! (k * num_elements_per_sample (t_shape X) + i) =
             tensor_to_vector_impl D X ! (k * num_elements_per_sample (t_shape X) + i)
             + tensor_to_vector_impl D V ! i)"
      unfolding n by auto
    from e [rule_format, of 1 1] r show ?thesis
      by (simp add: n)
  qed
  have 3: "\<exists>dev'. add_gradient_impl D X Y = (X, dev')
       \<and> tensor_to_vector_impl dev' X ! 3 =
           tensor_to_vector_impl D X ! 3 + tensor_to_vector_impl D Y ! 3"
  proof -
    from add_gradient_broadcast [OF d(3) _ _ a(3), of D]
    obtain dev' where r: "add_gradient_impl D X Y = (X, dev')"
      and e: "batch (t_shape X) = batch (t_shape Y) \<longrightarrow>
        (\<forall>j < num_total_elements (t_shape X).
           tensor_to_vector_impl dev' X ! j =
             tensor_to_vector_impl D X ! j + tensor_to_vector_impl D Y ! j)"
      unfolding n by auto
    from e [rule_format, of 3] r show ?thesis
      by (simp add: n)
  qed
  have 4: "tensor_to_vector_impl (snd (add_gradient_impl D V X)) V = [41, 62]"
    by (simp add: add_gradient_reduce defs ev)
  have 5: "tensor_to_vector_impl (snd (add_gradient_impl D X V)) X = [11, 22, 31, 42]"
    by (simp add: add_gradient_spread defs ev)
  have 6: "tensor_to_vector_impl (snd (add_gradient_impl D X Y)) X = [110, 220, 330, 440]"
    by (simp add: add_gradient_equal defs ev)
  have 7: "tensor_to_vector_impl (snd (add_gradient_impl D X X)) X = [20, 40, 60, 80]"
    by (simp add: add_gradient_equal defs ev)
  have 8: "tensor_to_vector_impl D V = [1, 2]" "tensor_to_vector_impl D X = [10, 20, 30, 40]"
    "tensor_to_vector_impl D Y = [100, 200, 300, 400]"
    by (simp_all add: defs ev)
  have 9: "fst (add_gradient_impl D V X) = V"
    using 1 by auto
  show ?thesis
    unfolding Let_def D_def [symmetric] V_def [symmetric] X_def [symmetric] Y_def [symmetric]
    using 1 2 3 4 5 6 7 8 9 by (simp add: defs)
qed


section \<open>Slicing and concatenation\<close>

text \<open>
  \<open>slice_impl\<close> and \<open>concat_impl\<close> copy runs of \<^verbatim>\<open>span\<close> elements with
  \<^verbatim>\<open>REPEAT_OP(j, span, *dest++ = *sp++)\<close>, which is \<open>copy_span\<close>: it takes the block to
  write with the two offsets and returns them advanced. In \<open>slice_impl\<close> the pointer
  \<^verbatim>\<open>dest\<close> itself runs on through the copies while \<^verbatim>\<open>src\<close> moves by \<^verbatim>\<open>skip\<close>; in
  \<open>concat_impl\<close> the copy works on \<^verbatim>\<open>dp\<close>, \<^verbatim>\<open>dest\<close> moves by \<^verbatim>\<open>skip\<close>, and \<^verbatim>\<open>sp\<close> runs on
  within one batch entry. The quotients \<^verbatim>\<open>repeat\<close> divide by a product of extents, which
  is positive for every shape the constructor of \<^verbatim>\<open>Shape\<close> admits (\<open>valid_shape\<close>).
  As in the other kernels the operands are read from the memory as it is before the
  kernel writes.

  \<open>slice_pieces\<close> is the caller the claim describes: it slices \<open>x\<close> along one axis into
  the given ranges, each piece of the shape of \<open>x\<close> with the axis resized to the length
  of its range; with each range comes the address \<^verbatim>\<open>malloc\<close> returns for its piece.
  \<open>consecutive start rs end'\<close> says that the ranges \<open>rs\<close>, each of a length of at least 1,
  follow one another from \<open>start\<close> to \<open>end'\<close>.
\<close>

definition copy_span ::
  "(nat \<Rightarrow> 'a) \<Rightarrow> nat \<Rightarrow> (nat \<Rightarrow> 'a) \<times> nat \<times> nat \<Rightarrow> (nat \<Rightarrow> 'a) \<times> nat \<times> nat" where
  "copy_span src n = REPEAT_OP n (\<lambda>j (dest, dp, sp). (dest(dp := src sp), dp + 1, sp + 1))"

definition slice_impl ::
  "'a CPUDevice \<Rightarrow> addr \<Rightarrow> Tensor \<Rightarrow> nat \<Rightarrow> nat \<Rightarrow> Shape \<Rightarrow> (error + Tensor) \<times> 'a CPUDevice" where
  "slice_impl dev data x dim' offset new_shape =
     (let base = num_elements_under_rank new_shape dim';
          span = base * shape_at new_shape dim';
          skip = base * shape_at (t_shape x) dim';
          repeat = num_total_elements new_shape div span
      in case new_tensor dev data new_shape of
           (Inl e, dev') \<Rightarrow> (Inl e, dev')
         | (Inr ret, dev') \<Rightarrow>
             (let (dest, pd, src) =
                    REPEAT_OP repeat (\<lambda>i (dest, pd, src).
                      (let (dest, pd, sp) = copy_span (mem dev' (t_data x)) span (dest, pd, src)
                       in (dest, pd, src + skip)))
                      (mem dev' (t_data ret), 0, base * offset)
              in (Inr ret, store dev' (t_data ret) dest)))"

definition concat_impl ::
  "'a CPUDevice \<Rightarrow> addr \<Rightarrow> Tensor list \<Rightarrow> nat \<Rightarrow> Shape \<Rightarrow> (error + Tensor) \<times> 'a CPUDevice" where
  "concat_impl dev data xs dim' new_shape =
     (let new_bs = batch_size new_shape;
          base = num_elements_under_rank new_shape dim';
          skip = base * shape_at new_shape dim';
          repeat = num_elements_per_sample new_shape div skip
      in case new_tensor dev data new_shape of
           (Inl e, dev') \<Rightarrow> (Inl e, dev')
         | (Inr ret, dev') \<Rightarrow>
             (let (buf, offset) =
                    fold (\<lambda>x (buf, offset).
                      (let src_dim = shape_at (t_shape x) dim';
                           span = base * src_dim;
                           b_skip = (if batch_size (t_shape x) > 1 then 1 else 0) * span * repeat;
                           (buf, dest, src) =
                             REPEAT_OP new_bs (\<lambda>b (buf, dest, src).
                               (let (buf, dest, sp) =
                                      REPEAT_OP repeat (\<lambda>i (buf, dest, sp).
                                        (let (buf, dp, sp) =
                                               copy_span (mem dev' (t_data x)) span (buf, dest, sp)
                                         in (buf, dest + skip, sp)))
                                        (buf, dest, src)
                                in (buf, dest, src + b_skip)))
                               (buf, offset, 0)
                       in (buf, offset + span)))
                      xs (mem dev' (t_data ret), 0)
              in (Inr ret, store dev' (t_data ret) buf)))"

fun slice_pieces ::
  "'a CPUDevice \<Rightarrow> Tensor \<Rightarrow> nat \<Rightarrow> (addr \<times> nat \<times> nat) list \<Rightarrow> (error + Tensor list) \<times> 'a CPUDevice" where
  "slice_pieces dev x dim' [] = (Inr [], dev)"
| "slice_pieces dev x dim' ((data, offset, len) # rs) =
     (case slice_impl dev data x dim' offset (resize_dim (t_shape x) dim' len) of
        (Inl e, dev') \<Rightarrow> (Inl e, dev')
      | (Inr t, dev') \<Rightarrow>
          (case slice_pieces dev' x dim' rs of
             (Inl e, dev'') \<Rightarrow> (Inl e, dev'')
           | (Inr ts, dev'') \<Rightarrow> (Inr (t # ts), dev'')))"

fun consecutive :: "nat \<Rightarrow> (nat \<times> nat) list \<Rightarrow> nat \<Rightarrow> bool" where
  "consecutive start [] end' = (start = end')"
| "consecutive start ((offset, len) # rs) end' =
     (offset = start \<and> 1 \<le> len \<and> consecutive (start + len) rs end')"

text \<open>
  The elements of a sample factor into those under the axis, the extent of the axis and
  those over it; resizing the axis changes the middle factor only.
\<close>

definition elements_over_rank :: "Shape \<Rightarrow> nat \<Rightarrow> nat" where
  "elements_over_rank s d = prod_list (drop (Suc d) (dims s))"

lemma per_sample_split:
  "num_elements_per_sample s = num_elements_under_rank s d * shape_at s d * elements_over_rank s d"
proof (cases "d < length (dims s)")
  case True
  then have "dims s = take d (dims s) @ dims s ! d # drop (Suc d) (dims s)"
    by (rule id_take_nth_drop)
  then have "prod_list (dims s) =
      prod_list (take d (dims s) @ dims s ! d # drop (Suc d) (dims s))"
    by simp
  with True show ?thesis
    by (simp add: num_elements_per_sample_def num_elements_under_rank_def shape_at_def
        elements_over_rank_def)
next
  case False
  then show ?thesis
    by (simp add: num_elements_per_sample_def num_elements_under_rank_def shape_at_def
        elements_over_rank_def)
qed

lemma resize_dim_under_rank:
  "num_elements_under_rank (resize_dim s d n) d = num_elements_under_rank s d"
  by (simp add: num_elements_under_rank_def resize_dim_def)

lemma resize_dim_at: "shape_at (resize_dim s d n) d = n"
proof -
  have "d < length (dims s) + (Suc d - length (dims s))" by arith
  then show ?thesis
    by (simp add: shape_at_def resize_dim_def)
qed

lemma resize_dim_over_rank:
  "elements_over_rank (resize_dim s d n) d = elements_over_rank s d"
  by (simp add: elements_over_rank_def resize_dim_def drop_update_cancel)

lemma resize_dim_batch: "batch (resize_dim s d n) = batch s"
  by (simp add: resize_dim_def)

lemma resize_dim_per_sample:
  "num_elements_per_sample (resize_dim s d n) =
     num_elements_under_rank s d * n * elements_over_rank s d"
  using per_sample_split [of "resize_dim s d n" d]
  by (simp add: resize_dim_under_rank resize_dim_at resize_dim_over_rank)

lemma prod_list_pos: "list_all (\<lambda>n. 1 \<le> n) xs \<Longrightarrow> 0 < prod_list (xs :: nat list)"
  by (induction xs) auto

lemma valid_shape_pos:
  assumes "valid_shape s"
  shows "0 < num_elements_under_rank s d" "0 < shape_at s d" "0 < elements_over_rank s d"
    "0 < batch s"
proof -
  from assms have a: "list_all (\<lambda>n. 1 \<le> n) (dims s)" and b: "1 \<le> batch s"
    by (simp_all add: valid_shape_def)
  from a have "list_all (\<lambda>n. 1 \<le> n) (take d (dims s))"
    by (auto simp: list_all_iff dest: in_set_takeD)
  then show "0 < num_elements_under_rank s d"
    by (simp add: num_elements_under_rank_def prod_list_pos)
  from a have "list_all (\<lambda>n. 1 \<le> n) (drop (Suc d) (dims s))"
    by (auto simp: list_all_iff dest: in_set_dropD)
  then show "0 < elements_over_rank s d"
    by (simp add: elements_over_rank_def prod_list_pos)
  from a show "0 < shape_at s d"
    by (auto simp: shape_at_def list_all_length)
  from b show "0 < batch s" by simp
qed


text \<open>The loops in closed form.\<close>

lemma copy_span_eq:
  "copy_span src n (dest, dp, sp) =
     (\<lambda>k. if dp \<le> k \<and> k < dp + n then src (sp + (k - dp)) else dest k, dp + n, sp + n)"
proof (induction n)
  case 0
  show ?case by (auto simp: copy_span_def REPEAT_OP_0 fun_eq_iff)
next
  case (Suc n)
  have "copy_span src (Suc n) (dest, dp, sp) =
      (\<lambda>(dest, dp, sp). (dest(dp := src sp), dp + 1, sp + 1)) (copy_span src n (dest, dp, sp))"
    by (simp add: copy_span_def REPEAT_OP_Suc)
  then show ?case
    unfolding Suc by (auto simp: fun_eq_iff)
qed

lemma slice_loop:
  "REPEAT_OP r (\<lambda>i (dest, pd, src).
       (let (dest, pd, sp) = copy_span X spn (dest, pd, src) in (dest, pd, src + skp)))
     (d0, 0, s0) =
   (\<lambda>k. if k < r * spn then X (s0 + (k div spn) * skp + k mod spn) else d0 k,
    r * spn, s0 + r * skp)"
proof (induction r)
  case 0
  show ?case by (simp add: REPEAT_OP_0)
next
  case (Suc r)
  show ?case
    unfolding REPEAT_OP_Suc Suc
    by (auto simp: copy_span_eq fun_eq_iff block_index)
qed

lemma in_block:
  fixes k :: nat
  assumes "ofs + spn \<le> skp"
  shows "(ofs + q * skp \<le> k \<and> k < ofs + q * skp + spn) \<longleftrightarrow>
     (k div skp = q \<and> ofs \<le> k mod skp \<and> k mod skp < ofs + spn)"
proof
  assume a: "ofs + q * skp \<le> k \<and> k < ofs + q * skp + spn"
  with assms have "q * skp \<le> k" "k < q * skp + skp" by auto
  then have "k div skp = q" "k mod skp = k - q * skp" by (rule block_index)+
  with a show "k div skp = q \<and> ofs \<le> k mod skp \<and> k mod skp < ofs + spn" by auto
next
  assume a: "k div skp = q \<and> ofs \<le> k mod skp \<and> k mod skp < ofs + spn"
  have "k = k div skp * skp + k mod skp" by simp
  with a have "k = q * skp + k mod skp" by simp
  with a show "ofs + q * skp \<le> k \<and> k < ofs + q * skp + spn" by linarith
qed

lemma concat_inner_loop:
  assumes "ofs + spn \<le> skp"
  shows "REPEAT_OP n (\<lambda>i (buf, dest, sp).
       (let (buf, dp, sp) = copy_span P spn (buf, dest, sp) in (buf, dest + skp, sp)))
     (buf, ofs + m * skp, s0) =
   (\<lambda>k. if m \<le> k div skp \<and> k div skp < m + n \<and> ofs \<le> k mod skp \<and> k mod skp < ofs + spn
         then P (s0 + (k div skp - m) * spn + (k mod skp - ofs)) else buf k,
    ofs + (m + n) * skp, s0 + n * spn)"
proof (induction n)
  case 0
  show ?case by (auto simp: REPEAT_OP_0 fun_eq_iff)
next
  case (Suc n)
  define d where "d = ofs + (m + n) * skp"
  define F where "F = (\<lambda>k. if m \<le> k div skp \<and> k div skp < m + n \<and> ofs \<le> k mod skp
        \<and> k mod skp < ofs + spn
      then P (s0 + (k div skp - m) * spn + (k mod skp - ofs)) else buf k)"
  have step: "REPEAT_OP (Suc n) (\<lambda>i (buf, dest, sp).
       (let (buf, dp, sp) = copy_span P spn (buf, dest, sp) in (buf, dest + skp, sp)))
     (buf, ofs + m * skp, s0) =
     (\<lambda>k. if d \<le> k \<and> k < d + spn then P (s0 + n * spn + (k - d)) else F k,
      d + skp, s0 + n * spn + spn)"
    unfolding REPEAT_OP_Suc Suc by (simp add: copy_span_eq d_def F_def cong: if_cong)
  have "(if d \<le> k \<and> k < d + spn then P (s0 + n * spn + (k - d)) else F k) =
      (if m \<le> k div skp \<and> k div skp < m + Suc n \<and> ofs \<le> k mod skp \<and> k mod skp < ofs + spn
       then P (s0 + (k div skp - m) * spn + (k mod skp - ofs)) else buf k)" for k
  proof (cases "d \<le> k \<and> k < d + spn")
    case True
    then have b: "k div skp = m + n \<and> ofs \<le> k mod skp \<and> k mod skp < ofs + spn"
      using in_block [OF assms, of "m + n" k] by (simp add: d_def)
    have "k = k div skp * skp + k mod skp" by simp
    with b have "k = (m + n) * skp + k mod skp" by simp
    with b have "k - d = k mod skp - ofs" unfolding d_def by linarith
    with True b show ?thesis by simp
  next
    case False
    then have "\<not> (k div skp = m + n \<and> ofs \<le> k mod skp \<and> k mod skp < ofs + spn)"
      using in_block [OF assms, of "m + n" k] by (simp add: d_def)
    then have e: "(m \<le> k div skp \<and> k div skp < m + Suc n \<and> ofs \<le> k mod skp
          \<and> k mod skp < ofs + spn) \<longleftrightarrow>
        (m \<le> k div skp \<and> k div skp < m + n \<and> ofs \<le> k mod skp \<and> k mod skp < ofs + spn)"
      by auto
    have l: "(if d \<le> k \<and> k < d + spn then P (s0 + n * spn + (k - d)) else F k) = F k"
      by (rule if_not_P [OF False])
    show ?thesis
      by (simp only: l) (simp only: e F_def)
  qed
  then show ?case
    unfolding step by (simp add: d_def fun_eq_iff add_mult_distrib)
qed


lemma concat_batch_loop:
  assumes "ofs + spn \<le> skp"
  shows "REPEAT_OP nb (\<lambda>b (buf, dest, src).
       (let (buf, dest, sp) =
              REPEAT_OP R (\<lambda>i (buf, dest, sp).
                (let (buf, dp, sp) = copy_span P spn (buf, dest, sp) in (buf, dest + skp, sp)))
                (buf, dest, src)
        in (buf, dest, src + bsk)))
     (buf, ofs, 0) =
   (\<lambda>k. if k div skp < nb * R \<and> ofs \<le> k mod skp \<and> k mod skp < ofs + spn
         then P ((k div skp div R) * bsk + (k div skp mod R) * spn + (k mod skp - ofs))
         else buf k,
    ofs + nb * R * skp, nb * bsk)"
proof (induction nb)
  case 0
  show ?case by (simp add: REPEAT_OP_0)
next
  case (Suc nb)
  define G where "G = (\<lambda>k. if k div skp < nb * R \<and> ofs \<le> k mod skp \<and> k mod skp < ofs + spn
         then P ((k div skp div R) * bsk + (k div skp mod R) * spn + (k mod skp - ofs))
         else buf k)"
  have step: "REPEAT_OP (Suc nb) (\<lambda>b (buf, dest, src).
       (let (buf, dest, sp) =
              REPEAT_OP R (\<lambda>i (buf, dest, sp).
                (let (buf, dp, sp) = copy_span P spn (buf, dest, sp) in (buf, dest + skp, sp)))
                (buf, dest, src)
        in (buf, dest, src + bsk)))
     (buf, ofs, 0) =
     (\<lambda>k. if nb * R \<le> k div skp \<and> k div skp < nb * R + R \<and> ofs \<le> k mod skp
            \<and> k mod skp < ofs + spn
          then P (nb * bsk + (k div skp - nb * R) * spn + (k mod skp - ofs)) else G k,
      ofs + (nb * R + R) * skp, nb * bsk + bsk)"
    unfolding REPEAT_OP_Suc Suc case_prod_conv concat_inner_loop [OF assms]
    by (simp add: G_def cong: if_cong)
  have "(if nb * R \<le> k div skp \<and> k div skp < nb * R + R \<and> ofs \<le> k mod skp
            \<and> k mod skp < ofs + spn
          then P (nb * bsk + (k div skp - nb * R) * spn + (k mod skp - ofs)) else G k) =
      (if k div skp < Suc nb * R \<and> ofs \<le> k mod skp \<and> k mod skp < ofs + spn
         then P ((k div skp div R) * bsk + (k div skp mod R) * spn + (k mod skp - ofs))
         else buf k)" for k
  proof (cases "nb * R \<le> k div skp \<and> k div skp < nb * R + R")
    case True
    then have "k div skp div R = nb" "k div skp mod R = k div skp - nb * R"
      by (auto intro: block_index)
    with True show ?thesis by (auto simp: G_def)
  next
    case False
    then have "k div skp < Suc nb * R \<longleftrightarrow> k div skp < nb * R" by auto
    with False show ?thesis by (auto simp: G_def)
  qed
  then show ?case
    unfolding step by (simp add: fun_eq_iff add_mult_distrib)
qed


lemmas slice_loop_case = slice_loop [unfolded Let_def]
lemmas concat_batch_loop_case = concat_batch_loop [unfolded Let_def]

lemma slice_impl_ok:
  assumes "data \<noteq> 0"
  shows "slice_impl dev data x d ofs ns =
     (Inr \<lparr>t_shape = ns, t_data = data\<rparr>,
      store (dev\<lparr>blocks := map_insert (blocks dev) data (mem_size ns)\<rparr>) data
        (\<lambda>k. if k < num_total_elements ns div (num_elements_under_rank ns d * shape_at ns d)
                    * (num_elements_under_rank ns d * shape_at ns d)
             then mem dev (t_data x)
                    (num_elements_under_rank ns d * ofs
                     + (k div (num_elements_under_rank ns d * shape_at ns d))
                         * (num_elements_under_rank ns d * shape_at (t_shape x) d)
                     + k mod (num_elements_under_rank ns d * shape_at ns d))
             else mem dev data k))"
  using assms
  by (simp add: slice_impl_def Let_def new_tensor_ok slice_loop_case cong: if_cong)


text \<open>
  For the proofs: \<open>concat_step\<close> is the body of the loop of \<open>concat_impl\<close> over its operands,
  and \<open>piece_of\<close> is the tensor \<open>slice_pieces\<close> returns for a range.
\<close>

definition concat_step ::
  "(addr \<Rightarrow> nat \<Rightarrow> 'a) \<Rightarrow> nat \<Rightarrow> nat \<Rightarrow> nat \<Rightarrow> nat \<Rightarrow> nat \<Rightarrow> Tensor \<Rightarrow>
   (nat \<Rightarrow> 'a) \<times> nat \<Rightarrow> (nat \<Rightarrow> 'a) \<times> nat" where
  "concat_step m d base skp R new_bs = (\<lambda>x (buf, offset).
      (let src_dim = shape_at (t_shape x) d;
           spn = base * src_dim;
           b_skip = (if batch_size (t_shape x) > 1 then 1 else 0) * spn * R;
           (buf, dest, src) =
             REPEAT_OP new_bs (\<lambda>b (buf, dest, src).
               (let (buf, dest, sp) =
                      REPEAT_OP R (\<lambda>i (buf, dest, sp).
                        (let (buf, dp, sp) = copy_span (m (t_data x)) spn (buf, dest, sp)
                         in (buf, dest + skp, sp)))
                        (buf, dest, src)
                in (buf, dest, src + b_skip)))
               (buf, offset, 0)
       in (buf, offset + spn)))"

lemma concat_impl_fold:
  "concat_impl dev data xs d new_shape =
     (case new_tensor dev data new_shape of
        (Inl e, dev') \<Rightarrow> (Inl e, dev')
      | (Inr ret, dev') \<Rightarrow>
          (Inr ret, store dev' (t_data ret)
            (fst (fold (concat_step (mem dev') d (num_elements_under_rank new_shape d)
                     (num_elements_under_rank new_shape d * shape_at new_shape d)
                     (num_elements_per_sample new_shape div
                        (num_elements_under_rank new_shape d * shape_at new_shape d))
                     (batch_size new_shape))
                   xs (mem dev' (t_data ret), 0)))))"
  unfolding concat_impl_def concat_step_def Let_def
  by (simp add: case_prod_beta split: prod.splits sum.splits)

lemma concat_step_eq:
  assumes "ofs + base * shape_at (t_shape x) d \<le> skp"
  shows "concat_step m d base skp R new_bs x (buf, ofs) =
    (\<lambda>k. if k div skp < new_bs * R \<and> ofs \<le> k mod skp
            \<and> k mod skp < ofs + base * shape_at (t_shape x) d
          then m (t_data x)
                 ((k div skp div R)
                    * ((if batch (t_shape x) > 1 then 1 else 0) * (base * shape_at (t_shape x) d) * R)
                  + (k div skp mod R) * (base * shape_at (t_shape x) d) + (k mod skp - ofs))
          else buf k,
     ofs + base * shape_at (t_shape x) d)"
  unfolding concat_step_def Let_def case_prod_conv concat_batch_loop_case [OF assms]
  by (simp add: batch_size_def)


definition piece_of :: "Shape \<Rightarrow> nat \<Rightarrow> addr \<times> nat \<times> nat \<Rightarrow> Tensor" where
  "piece_of sx d = (\<lambda>(data, offset, len). \<lparr>t_shape = resize_dim sx d len, t_data = data\<rparr>)"

lemma consecutive_le: "consecutive start rs end' \<Longrightarrow> start \<le> end'"
  by (induction start rs end' rule: consecutive.induct) auto

lemma batch_stride:
  fixes q R bs spn :: nat
  assumes "q < bs * R" "0 < bs"
  shows "(q div R) * ((if bs > 1 then 1 else 0) * spn * R) + (q mod R) * spn = q * spn"
proof (cases "bs > 1")
  case True
  have "(a * R + b) * spn = a * (spn * R) + b * spn" for a b :: nat
    by (simp add: algebra_simps)
  from this [of "q div R" "q mod R"]
  have "q * spn = (q div R) * (spn * R) + (q mod R) * spn"
    by (simp only: div_mult_mod_eq)
  with True show ?thesis by simp
next
  case False
  with assms have "q < R" by (cases bs) auto
  with False show ?thesis by simp
qed

lemma concat_fold_roundtrip:
  fixes X :: "nat \<Rightarrow> 'a" and m :: "addr \<Rightarrow> nat \<Rightarrow> 'a"
  assumes v: "valid_shape sx"
    and c: "consecutive start (map snd prs) (shape_at sx d)"
    and pc: "\<forall>(p, ofs, len) \<in> set prs.
        \<forall>k < elements_over_rank sx d * batch sx * (num_elements_under_rank sx d * len).
          m p k = X (num_elements_under_rank sx d * ofs
                     + (k div (num_elements_under_rank sx d * len))
                         * (num_elements_under_rank sx d * shape_at sx d)
                     + k mod (num_elements_under_rank sx d * len))"
    and inv: "\<forall>k < num_total_elements sx.
        k mod (num_elements_under_rank sx d * shape_at sx d) < num_elements_under_rank sx d * start
        \<longrightarrow> buf k = X k"
  shows "\<forall>k < num_total_elements sx.
      fst (fold (concat_step m d (num_elements_under_rank sx d)
                   (num_elements_under_rank sx d * shape_at sx d)
                   (elements_over_rank sx d) (batch sx))
             (map (piece_of sx d) prs) (buf, num_elements_under_rank sx d * start)) k = X k"
  using c pc inv
proof (induction prs arbitrary: start buf)
  case Nil
  from v have "0 < num_elements_under_rank sx d * shape_at sx d"
    by (simp add: valid_shape_pos)
  with Nil show ?case by simp
next
  case (Cons pr prs)
  obtain p ofs len where pr: "pr = (p, ofs, len)" by (cases pr)
  define B where "B = num_elements_under_rank sx d"
  define skp where "skp = B * shape_at sx d"
  define R where "R = elements_over_rank sx d"
  define bs where "bs = batch sx"
  define spn where "spn = B * len"
  have pos: "0 < B" "0 < skp" "0 < R" "0 < bs"
    using v by (simp_all add: B_def skp_def R_def bs_def valid_shape_pos)
  have tot: "num_total_elements sx = skp * (bs * R)"
    using per_sample_split [of sx d]
    by (simp add: num_total_elements_def skp_def B_def R_def bs_def algebra_simps)
  from Cons.prems(1) pr have o: "ofs = start" and l: "1 \<le> len"
    and c': "consecutive (start + len) (map snd prs) (shape_at sx d)"
    by simp_all
  from consecutive_le [OF c'] have fit: "B * start + spn \<le> skp"
    unfolding spn_def skp_def by (metis add_mult_distrib2 mult_le_mono2)
  have sp: "0 < spn" using pos l by (simp add: spn_def)
  define buf' where "buf' = (\<lambda>k. if k div skp < bs * R \<and> B * start \<le> k mod skp
            \<and> k mod skp < B * start + spn
          then m p ((k div skp div R) * ((if bs > 1 then 1 else 0) * spn * R)
                  + (k div skp mod R) * spn + (k mod skp - B * start))
          else buf k)"
  have step: "concat_step m d B skp R bs (piece_of sx d pr) (buf, B * start) =
      (buf', B * (start + len))"
    using concat_step_eq [of "B * start" B "piece_of sx d pr" d skp m R bs buf] fit
    by (simp add: pr piece_of_def resize_dim_at resize_dim_batch buf'_def spn_def bs_def
        algebra_simps cong: if_cong)
  have pcp: "m p k = X (B * start + (k div spn) * skp + k mod spn)" if "k < R * bs * spn" for k
    using Cons.prems(2) that
    by (simp add: pr o B_def skp_def R_def bs_def spn_def)
  have inv': "buf' k = X k"
    if k: "k < num_total_elements sx" and r: "k mod skp < B * (start + len)" for k
  proof (cases "B * start \<le> k mod skp")
    case True
    define q where "q = k div skp"
    define t where "t = k mod skp - B * start"
    have q: "q < bs * R"
      using k pos unfolding tot q_def by (simp add: less_mult_imp_div_less mult.commute)
    have t: "t < spn"
      using True r by (simp add: t_def spn_def algebra_simps)
    have "buf' k = m p (q * spn + t)"
      using True r q batch_stride [OF q pos(4), of spn]
      by (simp add: buf'_def q_def t_def spn_def algebra_simps)
    also have "\<dots> = X (B * start + ((q * spn + t) div spn) * skp + (q * spn + t) mod spn)"
      using index_bound [OF q t] by (intro pcp) (simp add: mult.commute)
    also have "\<dots> = X (B * start + q * skp + t)"
      using t by simp
    also have "B * start + q * skp + t = k"
      using True by (simp add: q_def t_def)
    finally show ?thesis .
  next
    case False
    then have "buf' k = buf k" by (simp add: buf'_def)
    with False k Cons.prems(3) show ?thesis
      by (simp add: B_def skp_def)
  qed
  have "\<forall>k < num_total_elements sx.
      fst (fold (concat_step m d B skp R bs) (map (piece_of sx d) prs) (buf', B * (start + len))) k
        = X k"
    unfolding B_def skp_def R_def bs_def
  proof (rule Cons.IH)
    show "consecutive (start + len) (map snd prs) (shape_at sx d)" by (rule c')
    show "\<forall>(p, ofs, len) \<in> set prs.
        \<forall>k < elements_over_rank sx d * batch sx * (num_elements_under_rank sx d * len).
          m p k = X (num_elements_under_rank sx d * ofs
                     + (k div (num_elements_under_rank sx d * len))
                         * (num_elements_under_rank sx d * shape_at sx d)
                     + k mod (num_elements_under_rank sx d * len))"
      using Cons.prems(2) by simp
    show "\<forall>k < num_total_elements sx.
        k mod (num_elements_under_rank sx d * shape_at sx d)
          < num_elements_under_rank sx d * (start + len) \<longrightarrow> buf' k = X k"
      using inv' by (simp add: B_def skp_def)
  qed
  then show ?case
    using step by (simp add: B_def skp_def R_def bs_def)
qed


lemma slice_impl_piece:
  assumes v: "valid_shape (t_shape x)" and l: "1 \<le> len" and d: "data \<noteq> 0"
  shows "slice_impl dev data x d ofs (resize_dim (t_shape x) d len) =
     (Inr (piece_of (t_shape x) d (data, ofs, len)),
      store (dev\<lparr>blocks := map_insert (blocks dev) data
                 (mem_size (resize_dim (t_shape x) d len))\<rparr>) data
        (\<lambda>k. if k < elements_over_rank (t_shape x) d * batch (t_shape x)
                      * (num_elements_under_rank (t_shape x) d * len)
             then mem dev (t_data x)
                    (num_elements_under_rank (t_shape x) d * ofs
                     + (k div (num_elements_under_rank (t_shape x) d * len))
                         * (num_elements_under_rank (t_shape x) d * shape_at (t_shape x) d)
                     + k mod (num_elements_under_rank (t_shape x) d * len))
             else mem dev data k))"
proof -
  define B where "B = num_elements_under_rank (t_shape x) d"
  define R where "R = elements_over_rank (t_shape x) d"
  define bs where "bs = batch (t_shape x)"
  have p: "0 < B * len"
    using v l by (simp add: B_def valid_shape_pos)
  have "num_total_elements (resize_dim (t_shape x) d len) = (R * bs) * (B * len)"
    by (simp add: num_total_elements_def resize_dim_per_sample resize_dim_batch B_def R_def bs_def)
  then have "num_total_elements (resize_dim (t_shape x) d len) div (B * len) = R * bs"
    using p by simp
  then show ?thesis
    using d
    by (simp add: slice_impl_ok piece_of_def resize_dim_under_rank resize_dim_at
        B_def R_def bs_def cong: if_cong)
qed

lemma slice_pieces_ok:
  assumes v: "valid_shape (t_shape x)"
    and "\<forall>(p, ofs, len) \<in> set prs. p \<noteq> 0 \<and> p \<noteq> t_data x \<and> 1 \<le> len"
    and "distinct (map fst prs)"
  shows "\<exists>dev1. slice_pieces dev x d prs = (Inr (map (piece_of (t_shape x) d) prs), dev1)
     \<and> (\<forall>q. q \<notin> fst ` set prs \<longrightarrow> mem dev1 q = mem dev q)
     \<and> (\<forall>(p, ofs, len) \<in> set prs.
          \<forall>k < elements_over_rank (t_shape x) d * batch (t_shape x)
                  * (num_elements_under_rank (t_shape x) d * len).
            mem dev1 p k =
              mem dev (t_data x)
                (num_elements_under_rank (t_shape x) d * ofs
                 + (k div (num_elements_under_rank (t_shape x) d * len))
                     * (num_elements_under_rank (t_shape x) d * shape_at (t_shape x) d)
                 + k mod (num_elements_under_rank (t_shape x) d * len)))"
  using assms(2,3)
proof (induction prs arbitrary: dev)
  case Nil
  show ?case by simp
next
  case (Cons pr prs)
  obtain p ofs len where pr: "pr = (p, ofs, len)" by (cases pr)
  from Cons.prems pr have h: "p \<noteq> 0" "p \<noteq> t_data x" "1 \<le> len" "p \<notin> fst ` set prs"
    by auto
  define buf where "buf = (\<lambda>k. if k < elements_over_rank (t_shape x) d * batch (t_shape x)
                      * (num_elements_under_rank (t_shape x) d * len)
             then mem dev (t_data x)
                    (num_elements_under_rank (t_shape x) d * ofs
                     + (k div (num_elements_under_rank (t_shape x) d * len))
                         * (num_elements_under_rank (t_shape x) d * shape_at (t_shape x) d)
                     + k mod (num_elements_under_rank (t_shape x) d * len))
             else mem dev p k)"
  define dev' where "dev' = store (dev\<lparr>blocks := map_insert (blocks dev) p
                 (mem_size (resize_dim (t_shape x) d len))\<rparr>) p buf"
  have s: "slice_impl dev p x d ofs (resize_dim (t_shape x) d len) =
      (Inr (piece_of (t_shape x) d pr), dev')"
    using slice_impl_piece [OF v h(3) h(1), of dev d ofs] by (simp add: pr dev'_def buf_def)
  have m': "mem dev' q = (if q = p then buf else mem dev q)" for q
    by (simp add: dev'_def mem_store)
  from Cons.prems have "\<forall>(p, ofs, len) \<in> set prs. p \<noteq> 0 \<and> p \<noteq> t_data x \<and> 1 \<le> len"
    and "distinct (map fst prs)" by auto
  from Cons.IH [OF this, of dev'] obtain dev1 where
    r: "slice_pieces dev' x d prs = (Inr (map (piece_of (t_shape x) d) prs), dev1)"
    and f: "\<forall>q. q \<notin> fst ` set prs \<longrightarrow> mem dev1 q = mem dev' q"
    and c: "\<forall>(p, ofs, len) \<in> set prs.
          \<forall>k < elements_over_rank (t_shape x) d * batch (t_shape x)
                  * (num_elements_under_rank (t_shape x) d * len).
            mem dev1 p k =
              mem dev' (t_data x)
                (num_elements_under_rank (t_shape x) d * ofs
                 + (k div (num_elements_under_rank (t_shape x) d * len))
                     * (num_elements_under_rank (t_shape x) d * shape_at (t_shape x) d)
                 + k mod (num_elements_under_rank (t_shape x) d * len))"
    by blast
  have x': "mem dev' (t_data x) = mem dev (t_data x)"
    using h(2) by (simp add: m')
  have "slice_pieces dev x d (pr # prs) = (Inr (map (piece_of (t_shape x) d) (pr # prs)), dev1)"
    using s r by (simp add: pr)
  moreover have "\<forall>q. q \<notin> fst ` set (pr # prs) \<longrightarrow> mem dev1 q = mem dev q"
    using f by (auto simp: pr m')
  moreover have "mem dev1 p = buf"
    using f h(4) by (simp add: m')
  ultimately show ?case
    using c unfolding x' by (intro exI [of _ dev1]) (auto simp: pr buf_def)
qed


lemma consecutive_len:
  "consecutive start rs end' \<Longrightarrow> \<forall>(ofs, len) \<in> set rs. 1 \<le> len"
  by (induction start rs end' rule: consecutive.induct) auto

text \<open>
  Claim C2. Let \<open>x\<close> be a tensor of a valid shape, \<open>d\<close> an axis, and let the ranges of
  \<open>prs\<close> follow one another from 0 to the extent of \<open>x\<close> along \<open>d\<close>; let every allocation
  succeed and return an address that is not in use (not 0, not the block of \<open>x\<close>, no two
  the same). Then slicing \<open>x\<close> into the ranges returns one piece for each, and
  concatenating the pieces along \<open>d\<close> with the shape of \<open>x\<close> returns a tensor with the
  shape of \<open>x\<close> and the elements of \<open>x\<close> in their order.
\<close>

theorem slice_concat_roundtrip:
  assumes v: "valid_shape (t_shape x)"
    and c: "consecutive 0 (map snd prs) (shape_at (t_shape x) d)"
    and dist: "distinct (data # map fst prs)"
    and ptr: "\<forall>p \<in> set (data # map fst prs). p \<noteq> 0 \<and> p \<noteq> t_data x"
  shows "\<exists>ts dev1 ret dev2.
      slice_pieces dev x d prs = (Inr ts, dev1)
      \<and> length ts = length prs
      \<and> concat_impl dev1 data ts d (t_shape x) = (Inr ret, dev2)
      \<and> t_shape ret = t_shape x
      \<and> tensor_to_vector_impl dev2 ret = tensor_to_vector_impl dev x"
proof -
  define sx where "sx = t_shape x"
  define B where "B = num_elements_under_rank sx d"
  define skp where "skp = B * shape_at sx d"
  define R where "R = elements_over_rank sx d"
  define ts where "ts = map (piece_of sx d) prs"
  define X where "X = mem dev (t_data x)"
  have pos: "0 < skp"
    using v by (simp add: skp_def B_def sx_def valid_shape_pos)
  have rep: "num_elements_per_sample sx div skp = R"
    using per_sample_split [of sx d] pos by (simp add: skp_def B_def R_def)
  from consecutive_len [OF c] have lens: "\<forall>(p, ofs, len) \<in> set prs. 1 \<le> len"
    by auto
  with ptr have "\<forall>(p, ofs, len) \<in> set prs. p \<noteq> 0 \<and> p \<noteq> t_data x \<and> 1 \<le> len"
    by fastforce
  moreover from dist have "distinct (map fst prs)" by simp
  ultimately obtain dev1 where
    sl: "slice_pieces dev x d prs = (Inr ts, dev1)"
    and pc: "\<forall>(p, ofs, len) \<in> set prs.
          \<forall>k < R * batch sx * (B * len).
            mem dev1 p k = X (B * ofs + (k div (B * len)) * skp + k mod (B * len))"
    using slice_pieces_ok [OF v, of prs dev d]
    unfolding ts_def sx_def B_def R_def X_def skp_def by blast
  define ret where "ret = \<lparr>t_shape = sx, t_data = data\<rparr>"
  define buf where "buf = fst (fold (concat_step (mem dev1) d B skp R (batch sx)) ts
      (mem dev1 data, B * 0))"
  define dev2 where "dev2 =
      store (dev1\<lparr>blocks := map_insert (blocks dev1) data (mem_size sx)\<rparr>) data buf"
  from ptr have d0: "data \<noteq> 0" by simp
  have cc: "concat_impl dev1 data ts d sx = (Inr ret, dev2)"
    using d0
    by (simp add: concat_impl_fold new_tensor_ok batch_size_def rep [unfolded skp_def B_def]
        ret_def dev2_def buf_def skp_def B_def)
  have "\<forall>k < num_total_elements sx. buf k = X k"
    unfolding buf_def ts_def B_def skp_def R_def
  proof (rule concat_fold_roundtrip)
    show "valid_shape sx" using v by (simp add: sx_def)
    show "consecutive 0 (map snd prs) (shape_at sx d)" using c by (simp add: sx_def)
    show "\<forall>(p, ofs, len) \<in> set prs.
        \<forall>k < elements_over_rank sx d * batch sx * (num_elements_under_rank sx d * len).
          mem dev1 p k = X (num_elements_under_rank sx d * ofs
                     + (k div (num_elements_under_rank sx d * len))
                         * (num_elements_under_rank sx d * shape_at sx d)
                     + k mod (num_elements_under_rank sx d * len))"
      using pc by (simp add: B_def R_def skp_def)
    show "\<forall>k < num_total_elements sx.
        k mod (num_elements_under_rank sx d * shape_at sx d) < num_elements_under_rank sx d * 0
        \<longrightarrow> mem dev1 data k = X k"
      by simp
  qed
  then have "tensor_to_vector_impl dev2 ret = tensor_to_vector_impl dev x"
    by (simp add: tensor_to_vector_impl_def dev2_def mem_store ret_def X_def sx_def)
  moreover have "length ts = length prs" by (simp add: ts_def)
  moreover have "t_shape ret = t_shape x" by (simp add: ret_def sx_def)
  ultimately show ?thesis
    using sl cc unfolding sx_def by blast
qed


theorem slice_concat_roundtrip_witness:
  "(let D = \<lparr>blocks = [8 \<mapsto> 16], mem = (\<lambda>p i. if p = 8 then real (i + 1) else 0)\<rparr>;
        X = \<lparr>t_shape = \<lparr>dims = [2, 2], batch = 1\<rparr>, t_data = 8\<rparr>;
        PRS = [(16, 0, 1), (24, 1, 1)];
        P1 = \<lparr>t_shape = \<lparr>dims = [2, 1], batch = 1\<rparr>, t_data = 16\<rparr>;
        P2 = \<lparr>t_shape = \<lparr>dims = [2, 1], batch = 1\<rparr>, t_data = 24\<rparr>
    in valid_shape (t_shape X)
       \<and> consecutive 0 (map snd PRS) (shape_at (t_shape X) 1)
       \<and> distinct (32 # map fst PRS)
       \<and> list_all (\<lambda>p. p \<noteq> 0 \<and> p \<noteq> t_data X) (32 # map fst PRS)
       \<and> tensor_to_vector_impl D X = [1, 2, 3, 4]
       \<and> fst (slice_pieces D X 1 PRS) = Inr [P1, P2]
       \<and> tensor_to_vector_impl (snd (slice_pieces D X 1 PRS)) P1 = [1, 2]
       \<and> tensor_to_vector_impl (snd (slice_pieces D X 1 PRS)) P2 = [3, 4]
       \<and> (\<exists>ret dev2.
            concat_impl (snd (slice_pieces D X 1 PRS)) 32 [P1, P2] 1 (t_shape X) = (Inr ret, dev2)
            \<and> t_shape ret = t_shape X
            \<and> tensor_to_vector_impl dev2 ret = [1, 2, 3, 4]))"
proof -
  define D :: "real CPUDevice" where
    "D = \<lparr>blocks = [8 \<mapsto> 16], mem = (\<lambda>p i. if p = 8 then real (i + 1) else 0)\<rparr>"
  define X where "X = \<lparr>t_shape = \<lparr>dims = [2, 2], batch = 1\<rparr>, t_data = 8\<rparr>"
  define PRS :: "(addr \<times> nat \<times> nat) list" where "PRS = [(16, 0, 1), (24, 1, 1)]"
  define P1 where "P1 = \<lparr>t_shape = \<lparr>dims = [2, 1], batch = 1\<rparr>, t_data = 16\<rparr>"
  define P2 where "P2 = \<lparr>t_shape = \<lparr>dims = [2, 1], batch = 1\<rparr>, t_data = 24\<rparr>"
  note defs = D_def X_def PRS_def P1_def P2_def
  note ev = tensor_to_vector_impl_def num_total_elements_def num_elements_per_sample_def
    num_elements_under_rank_def shape_at_def resize_dim_def upt_2 upt_4
  have h: "valid_shape (t_shape X)" "consecutive 0 (map snd PRS) (shape_at (t_shape X) 1)"
    "distinct (32 # map fst PRS)" "\<forall>p \<in> set (32 # map fst PRS). p \<noteq> 0 \<and> p \<noteq> t_data X"
    by (simp_all add: defs valid_shape_def shape_at_def)
  have x: "tensor_to_vector_impl D X = [1, 2, 3, 4]"
    by (simp add: defs ev)
  have s: "fst (slice_pieces D X 1 PRS) = Inr [P1, P2]"
    by (simp add: defs slice_impl_ok resize_dim_def)
  have p1: "tensor_to_vector_impl (snd (slice_pieces D X 1 PRS)) P1 = [1, 2]"
    by (simp add: defs slice_impl_ok mem_store ev)
  have p2: "tensor_to_vector_impl (snd (slice_pieces D X 1 PRS)) P2 = [3, 4]"
    by (simp add: defs slice_impl_ok mem_store ev)
  from slice_concat_roundtrip [OF h, of D] obtain ts dev1 ret dev2 where
    r: "slice_pieces D X 1 PRS = (Inr ts, dev1)"
      "concat_impl dev1 32 ts 1 (t_shape X) = (Inr ret, dev2)"
      "t_shape ret = t_shape X"
      "tensor_to_vector_impl dev2 ret = tensor_to_vector_impl D X"
    by blast
  from r(1) s have "ts = [P1, P2]" "dev1 = snd (slice_pieces D X 1 PRS)" by simp_all
  with r x have "\<exists>ret dev2.
      concat_impl (snd (slice_pieces D X 1 PRS)) 32 [P1, P2] 1 (t_shape X) = (Inr ret, dev2)
      \<and> t_shape ret = t_shape X \<and> tensor_to_vector_impl dev2 ret = [1, 2, 3, 4]"
    by auto
  with h x s p1 p2 show ?thesis
    unfolding Let_def D_def [symmetric] X_def [symmetric] PRS_def [symmetric]
      P1_def [symmetric] P2_def [symmetric]
    by (simp add: list_all_iff)
qed


end
